theory Spec2Isabelle
  imports Complex_Main "HOL-Library.Multiset" "HOL-Library.Product_Lexorder" "HOL-Library.Option_ord"
begin

section \<open>The job record\<close>

text \<open>
  Class \<open>Process\<close> of \<open>os1.py\<close>. Python integers are unbounded, hence \<open>int\<close>; the fields
  that the constructor initialises with \<open>None\<close> are options. The schedulers mutate the
  objects of the list they were given; the driver builds one fresh object per list entry,
  so the lists below hold the objects by value and every mutation is a record update of the
  entry concerned.
\<close>

record process =
  process_id :: int
  arrival_time :: int
  burst_time :: int
  priority :: "int option"
  start_time :: "int option"
  completion_time :: "int option"

definition Process :: "int \<Rightarrow> int \<Rightarrow> int \<Rightarrow> int option \<Rightarrow> process" where
  "Process pid arrival burst prio =
     \<lparr>process_id = pid, arrival_time = arrival, burst_time = burst, priority = prio,
      start_time = None, completion_time = None\<rparr>"

datatype error = TypeError | ZeroDivisionError | OverflowError

section \<open>Dispatching one job to completion\<close>

text \<open>
  The five statements that \<open>FCFS.run\<close>, \<open>SJF.run\<close>, \<open>Priority.run\<close> and \<open>SRTF.run\<close> share
  word for word: the clock jumps to the arrival time when it is behind, the start time is
  the clock, the clock advances by the burst time, and the completion time is the clock.
  The result is the new clock and the updated job.
\<close>

definition dispatch :: "int \<Rightarrow> process \<Rightarrow> int \<times> process" where
  "dispatch current_time p =
     (let t1 = (if current_time < arrival_time p then arrival_time p else current_time);
          p1 = p\<lparr>start_time := Some t1\<rparr>;
          t2 = t1 + burst_time p1
      in (t2, p1\<lparr>completion_time := Some t2\<rparr>))"

section \<open>First come, first served\<close>

text \<open>
  The \<open>for\<close> loop of \<open>FCFS.run\<close>: the clock, the jobs still to visit, and the list
  \<open>completed_processes\<close> built so far. \<open>FCFS_run\<close> is \<open>run\<close> followed by
  \<open>get_completed_processes\<close> on a freshly constructed scheduler.
\<close>

fun fcfs_loop :: "int \<Rightarrow> process list \<Rightarrow> process list \<Rightarrow> process list" where
  "fcfs_loop current_time [] completed = completed"
| "fcfs_loop current_time (p # ps) completed =
     (case dispatch current_time p of
        (t, p') \<Rightarrow> fcfs_loop t ps (completed @ [p']))"

definition FCFS_run :: "process list \<Rightarrow> process list" where
  "FCFS_run processes = fcfs_loop 0 processes []"

section \<open>The state of the \<open>while\<close> loops\<close>

text \<open>
  The other four policies loop \<open>while remaining_processes\<close> over the same three variables.
\<close>

record sim =
  remaining_processes :: "process list"
  current_time :: int
  completed_processes :: "process list"

definition init :: "process list \<Rightarrow> sim" where
  "init processes =
     \<lparr>remaining_processes = processes, current_time = 0, completed_processes = []\<rparr>"

section \<open>Shortest job first\<close>

text \<open>
  Python's \<open>list.sort\<close> is stable, and so is \<open>sort_key\<close>; the key is the pair
  (burst time, arrival time), compared lexicographically. One iteration sorts the
  remaining jobs, pops the first and dispatches it.
\<close>

definition sjf_key :: "process \<Rightarrow> int \<times> int" where
  "sjf_key x = (burst_time x, arrival_time x)"

definition sjf_step :: "sim \<Rightarrow> sim" where
  "sjf_step s =
     (case sort_key sjf_key (remaining_processes s) of
        [] \<Rightarrow> s
      | p # rest \<Rightarrow>
          (case dispatch (current_time s) p of
             (t, p') \<Rightarrow>
               \<lparr>remaining_processes = rest, current_time = t,
                completed_processes = completed_processes s @ [p']\<rparr>))"

function sjf_loop :: "sim \<Rightarrow> process list" where
  "sjf_loop s =
     (if remaining_processes s = [] then completed_processes s else sjf_loop (sjf_step s))"
  by pat_completeness auto
termination
proof (relation "measure (\<lambda>s. length (remaining_processes s))")
  show "wf (measure (\<lambda>s. length (remaining_processes s)))" by simp
next
  fix s :: sim
  assume ne: "remaining_processes s \<noteq> []"
  have len: "length (sort_key sjf_key (remaining_processes s)) = length (remaining_processes s)"
    by simp
  have "length (remaining_processes (sjf_step s)) < length (remaining_processes s)"
  proof (cases "sort_key sjf_key (remaining_processes s)")
    case Nil
    with len ne show ?thesis by simp
  next
    case (Cons p rest)
    with len show ?thesis
      by (simp add: sjf_step_def split: prod.split)
  qed
  then show "(sjf_step s, s) \<in> measure (\<lambda>s. length (remaining_processes s))" by simp
qed

definition SJF_run :: "process list \<Rightarrow> process list" where
  "SJF_run processes = sjf_loop (init processes)"

section \<open>Priority scheduling\<close>

text \<open>
  The sort key is the tuple \<open>(x.priority, x.arrival_time)\<close>, and \<open>priority\<close> may be
  \<open>None\<close>. Python compares two tuples by looking for the first position where the
  components are not equal and ordering those: two \<open>None\<close> priorities are equal, so the
  arrival times decide, while \<open>None\<close> against an integer raises \<open>TypeError\<close>. A
  comparison sort cannot order a list that has both kinds of key without comparing a job
  of one kind with a job of the other, so the sort raises exactly when the list has a
  job without and a job with a priority; otherwise it is the stable sort by the key
  (on keys of one kind the order of \<open>int option\<close> is Python's).
\<close>

definition priority_key :: "process \<Rightarrow> int option \<times> int" where
  "priority_key x = (priority x, arrival_time x)"

definition priority_sort :: "process list \<Rightarrow> error + process list" where
  "priority_sort ps =
     (if (\<exists>x \<in> set ps. priority x = None) \<and> (\<exists>x \<in> set ps. priority x \<noteq> None)
      then Inl TypeError
      else Inr (sort_key priority_key ps))"

definition priority_step :: "sim \<Rightarrow> error + sim" where
  "priority_step s =
     (case priority_sort (remaining_processes s) of
        Inl e \<Rightarrow> Inl e
      | Inr [] \<Rightarrow> Inr s
      | Inr (p # rest) \<Rightarrow>
          (case dispatch (current_time s) p of
             (t, p') \<Rightarrow>
               Inr \<lparr>remaining_processes = rest, current_time = t,
                    completed_processes = completed_processes s @ [p']\<rparr>))"

function priority_loop :: "sim \<Rightarrow> error + process list" where
  "priority_loop s =
     (if remaining_processes s = [] then Inr (completed_processes s)
      else (case priority_step s of
              Inl e \<Rightarrow> Inl e
            | Inr s' \<Rightarrow> priority_loop s'))"
  by pat_completeness auto
termination
proof (relation "measure (\<lambda>s. length (remaining_processes s))")
  show "wf (measure (\<lambda>s. length (remaining_processes s)))" by simp
next
  fix s s' :: sim
  assume ne: "remaining_processes s \<noteq> []" and st: "priority_step s = Inr s'"
  have "length (remaining_processes s') < length (remaining_processes s)"
  proof (cases "priority_sort (remaining_processes s)")
    case (Inl e)
    with st show ?thesis by (simp add: priority_step_def)
  next
    case (Inr sorted_ps)
    then have len: "length sorted_ps = length (remaining_processes s)"
      by (auto simp: priority_sort_def split: if_splits)
    show ?thesis
    proof (cases sorted_ps)
      case Nil
      with len ne show ?thesis by simp
    next
      case (Cons p rest)
      with Inr st len show ?thesis
        by (auto simp: priority_step_def split: prod.splits)
    qed
  qed
  then show "(s', s) \<in> measure (\<lambda>s. length (remaining_processes s))" by simp
qed

definition Priority_run :: "process list \<Rightarrow> error + process list" where
  "Priority_run processes = priority_loop (init processes)"

section \<open>Round robin\<close>

text \<open>
  One iteration of \<open>RoundRobin.run\<close>: pop the front job, clamp the clock to its arrival
  time, write the start time (at every dispatch), then either serve one quantum and put
  the job back at the end of the queue with its burst time reduced, or serve the burst
  time and complete the job. The burst time of a completed job is left as it is.
\<close>

definition rr_step :: "int \<Rightarrow> sim \<Rightarrow> sim" where
  "rr_step time_quantum s =
     (case remaining_processes s of
        [] \<Rightarrow> s
      | p # rest \<Rightarrow>
          (let t1 = (if current_time s < arrival_time p then arrival_time p else current_time s);
               p1 = p\<lparr>start_time := Some t1\<rparr>
           in if burst_time p1 > time_quantum
              then \<lparr>remaining_processes = rest @ [p1\<lparr>burst_time := burst_time p1 - time_quantum\<rparr>],
                    current_time = t1 + time_quantum,
                    completed_processes = completed_processes s\<rparr>
              else \<lparr>remaining_processes = rest,
                    current_time = t1 + burst_time p1,
                    completed_processes =
                      completed_processes s @ [p1\<lparr>completion_time := Some (t1 + burst_time p1)\<rparr>]\<rparr>))"

text \<open>
  Nothing in the source bounds the number of iterations (the quantum is whatever the
  caller passed), so the loop is a partial function: \<open>None\<close> means that it never returns.
\<close>

partial_function (option) rr_loop :: "int \<Rightarrow> sim \<Rightarrow> process list option" where
  "rr_loop time_quantum s =
     (if remaining_processes s = [] then Some (completed_processes s)
      else rr_loop time_quantum (rr_step time_quantum s))"

declare rr_loop.simps [code]

definition RoundRobin_run :: "int \<Rightarrow> process list \<Rightarrow> process list option" where
  "RoundRobin_run time_quantum processes = rr_loop time_quantum (init processes)"

section \<open>Shortest remaining time first\<close>

text \<open>
  One iteration of \<open>SRTF.run\<close>: sort by (burst time, arrival time), dispatch the first job
  to completion and pop it, subtract its burst time from every other job that has arrived
  by the new clock value, and keep only the jobs whose burst time is still positive.
  \<open>srtf_discount\<close> is the \<open>for\<close> loop over the remaining jobs.
\<close>

definition srtf_discount :: "int \<Rightarrow> int \<Rightarrow> process list \<Rightarrow> process list" where
  "srtf_discount t served ps =
     map (\<lambda>p. if arrival_time p \<le> t then p\<lparr>burst_time := burst_time p - served\<rparr> else p) ps"

definition srtf_step :: "sim \<Rightarrow> sim" where
  "srtf_step s =
     (case sort_key sjf_key (remaining_processes s) of
        [] \<Rightarrow> s
      | p # rest \<Rightarrow>
          (case dispatch (current_time s) p of
             (t, p') \<Rightarrow>
               \<lparr>remaining_processes =
                  filter (\<lambda>x. burst_time x > 0) (srtf_discount t (burst_time p') rest),
                current_time = t,
                completed_processes = completed_processes s @ [p']\<rparr>))"

function srtf_loop :: "sim \<Rightarrow> process list" where
  "srtf_loop s =
     (if remaining_processes s = [] then completed_processes s else srtf_loop (srtf_step s))"
  by pat_completeness auto
termination
proof (relation "measure (\<lambda>s. length (remaining_processes s))")
  show "wf (measure (\<lambda>s. length (remaining_processes s)))" by simp
next
  fix s :: sim
  assume ne: "remaining_processes s \<noteq> []"
  have len: "length (sort_key sjf_key (remaining_processes s)) = length (remaining_processes s)"
    by simp
  have "length (remaining_processes (srtf_step s)) < length (remaining_processes s)"
  proof (cases "sort_key sjf_key (remaining_processes s)")
    case Nil
    with len ne show ?thesis by simp
  next
    case (Cons p rest)
    have "length (filter (\<lambda>x. burst_time x > 0) (srtf_discount t (burst_time p') rest))
          \<le> length rest" for t :: int and p' :: process
      using length_filter_le [of "\<lambda>x. burst_time x > 0" "srtf_discount t (burst_time p') rest"]
      by (simp add: srtf_discount_def)
    with Cons len show ?thesis
      by (auto simp: srtf_step_def less_Suc_eq_le simp flip: len split: prod.split)
  qed
  then show "(srtf_step s, s) \<in> measure (\<lambda>s. length (remaining_processes s))" by simp
qed

definition SRTF_run :: "process list \<Rightarrow> process list" where
  "SRTF_run processes = srtf_loop (init processes)"

section \<open>Division of integers in double precision\<close>

text \<open>
  The metrics divide one Python \<open>int\<close> by another with \<open>/\<close>. That is true division: the
  result is a \<open>float\<close>, an IEEE 754 binary64 number, namely the exact quotient rounded to
  the nearest double with ties going to the even significand, and the division raises
  \<open>OverflowError\<close> when the rounded result is beyond the largest double, that is, when
  its magnitude reaches \<open>2 ^ 1024\<close>; a zero divisor raises \<open>ZeroDivisionError\<close>.

  A double is represented here by the rational number that it denotes (so the two zeros
  are one value). A normal double has a significand of 53 bits and an exponent from
  -1022 to 1023: the doubles of magnitude in \<open>[2 ^ e, 2 ^ (e + 1))\<close> are the multiples of
  \<open>2 ^ (e - 52)\<close>. Below \<open>2 ^ - 1022\<close> lie the subnormal doubles, the multiples of
  \<open>2 ^ - 1074\<close>. Rounding \<open>x\<close> therefore rounds \<open>x\<close> divided by the spacing at its magnitude to
  an integer, half-way cases to the even one.

  \<open>bit_length\<close> is the number of binary digits of a natural number and \<open>floor_log2 x\<close>, for
  positive \<open>x\<close>, the exponent \<open>e\<close> with \<open>2 ^ e \<le> x < 2 ^ (e + 1)\<close>.
\<close>

fun bit_length :: "nat \<Rightarrow> nat" where
  "bit_length n = (if n = 0 then 0 else Suc (bit_length (n div 2)))"

definition round_half_even :: "rat \<Rightarrow> int" where
  "round_half_even q =
     (let f = \<lfloor>q\<rfloor>; r = q - of_int f
      in if r < 1 / 2 then f
         else if 1 / 2 < r then f + 1
         else if even f then f else f + 1)"

definition floor_log2 :: "rat \<Rightarrow> int" where
  "floor_log2 x =
     (if 1 \<le> x then int (bit_length (nat \<lfloor>x\<rfloor>)) - 1
      else - int (bit_length (nat (\<lceil>1 / x\<rceil> - 1))))"

definition nearest_double :: "rat \<Rightarrow> rat" where
  "nearest_double x =
     (if x = 0 then 0
      else let e = max (floor_log2 \<bar>x\<bar>) (- 1022);
               ulp = 2 powi (e - 52)
           in sgn x * (of_int (round_half_even (\<bar>x\<bar> / ulp)) * ulp))"

definition int_truediv :: "int \<Rightarrow> int \<Rightarrow> error + rat" where
  "int_truediv a b =
     (if b = 0 then Inl ZeroDivisionError
      else let d = nearest_double (of_int a / of_int b)
           in if 2 ^ 1024 \<le> \<bar>d\<bar> then Inl OverflowError else Inr d)"

section \<open>Metrics\<close>

text \<open>
  \<open>sum(...) / len(processes)\<close>: the generator subtracts the arrival time from the start
  (completion) time of each job, which raises \<open>TypeError\<close> for a time that is still
  \<open>None\<close>; the sum is an \<open>int\<close> and is evaluated before the division by the length.
\<close>

definition calculate_average_waiting_time :: "process list \<Rightarrow> error + rat" where
  "calculate_average_waiting_time processes =
     (if \<exists>p \<in> set processes. start_time p = None then Inl TypeError
      else int_truediv (\<Sum>p \<leftarrow> processes. the (start_time p) - arrival_time p)
             (int (length processes)))"

definition calculate_average_turnaround_time :: "process list \<Rightarrow> error + rat" where
  "calculate_average_turnaround_time processes =
     (if \<exists>p \<in> set processes. completion_time p = None then Inl TypeError
      else int_truediv (\<Sum>p \<leftarrow> processes. the (completion_time p) - arrival_time p)
             (int (length processes)))"

section \<open>Auxiliary notions for the statements\<close>

text \<open>A job with its two computed times erased: the caller-supplied part of the record.\<close>

definition untimed :: "process \<Rightarrow> process" where
  "untimed p = p\<lparr>start_time := None, completion_time := None\<rparr>"

text \<open>
  The mean of a list of integers, in the words of the specification of the metrics: the
  sum of the values divided by their number.
\<close>

definition spec_mean :: "int list \<Rightarrow> rat" where
  "spec_mean xs = of_int (sum_list xs) / of_nat (length xs)"

text \<open>
  The waiting time of a job is its start time minus its arrival time, its turnaround time
  its completion time minus its arrival time.
\<close>

definition waiting_times :: "process list \<Rightarrow> int list" where
  "waiting_times ps = map (\<lambda>p. the (start_time p) - arrival_time p) ps"

definition turnaround_times :: "process list \<Rightarrow> int list" where
  "turnaround_times ps = map (\<lambda>p. the (completion_time p) - arrival_time p) ps"

text \<open>
  A completed job is well timed when both times are set and
  arrival time \<open>\<le>\<close> start time \<open>\<le>\<close> completion time.
\<close>

definition timed_ok :: "process \<Rightarrow> bool" where
  "timed_ok p =
     (case start_time p of
        None \<Rightarrow> False
      | Some s \<Rightarrow>
          (case completion_time p of
             None \<Rightarrow> False
           | Some c \<Rightarrow> arrival_time p \<le> s \<and> s \<le> c))"

declare sjf_loop.simps [simp del]
declare priority_loop.simps [simp del]
declare srtf_loop.simps [simp del]
declare bit_length.simps [simp del]

section \<open>Facts about dispatching and the FCFS loop\<close>

lemma dispatch_eq:
  "dispatch t p =
     (max t (arrival_time p) + burst_time p,
      p\<lparr>start_time := Some (max t (arrival_time p)),
        completion_time := Some (max t (arrival_time p) + burst_time p)\<rparr>)"
  by (simp add: dispatch_def Let_def max_def)

lemma fcfs_loop_acc: "fcfs_loop t ps acc = acc @ fcfs_loop t ps []"
proof (induction ps arbitrary: t acc)
  case Nil
  show ?case by simp
next
  case (Cons p ps)
  have "fcfs_loop t (p # ps) acc
        = fcfs_loop (fst (dispatch t p)) ps (acc @ [snd (dispatch t p)])"
    by (simp split: prod.split)
  also have "\<dots> = (acc @ [snd (dispatch t p)]) @ fcfs_loop (fst (dispatch t p)) ps []"
    by (rule Cons.IH)
  also have "\<dots> = acc @ fcfs_loop (fst (dispatch t p)) ps [snd (dispatch t p)]"
    using Cons.IH [of "fst (dispatch t p)" "[snd (dispatch t p)]"] by simp
  also have "\<dots> = acc @ fcfs_loop t (p # ps) []"
    by (simp split: prod.split)
  finally show ?case .
qed

lemma fcfs_loop_Cons:
  "fcfs_loop t (p # ps) [] = snd (dispatch t p) # fcfs_loop (fst (dispatch t p)) ps []"
proof -
  have "fcfs_loop t (p # ps) [] = fcfs_loop (fst (dispatch t p)) ps [snd (dispatch t p)]"
    by (simp split: prod.split)
  then show ?thesis
    using fcfs_loop_acc [of "fst (dispatch t p)" ps "[snd (dispatch t p)]"] by simp
qed

declare fcfs_loop.simps(2) [simp del]

lemma length_fcfs_loop: "length (fcfs_loop t ps []) = length ps"
  by (induction ps arbitrary: t) (simp_all add: fcfs_loop_Cons)

lemma untimed_fcfs_loop: "map untimed (fcfs_loop t ps []) = map untimed ps"
  by (induction ps arbitrary: t) (simp_all add: fcfs_loop_Cons dispatch_eq untimed_def)

lemma fcfs_loop_start:
  "i < length ps \<Longrightarrow>
   start_time (fcfs_loop t ps [] ! i)
     = Some (max (if i = 0 then t else the (completion_time (fcfs_loop t ps [] ! (i - 1))))
                 (arrival_time (ps ! i)))"
proof (induction ps arbitrary: t i)
  case Nil
  then show ?case by simp
next
  case (Cons p ps)
  show ?case
  proof (cases i)
    case 0
    then show ?thesis by (simp add: fcfs_loop_Cons dispatch_eq)
  next
    case (Suc j)
    with Cons.prems have j: "j < length ps" by simp
    show ?thesis
    proof (cases j)
      case 0
      with Suc j Cons.IH [of 0 "fst (dispatch t p)"] show ?thesis
        by (simp add: fcfs_loop_Cons dispatch_eq)
    next
      case (Suc k)
      with \<open>i = Suc j\<close> j Cons.IH [of j "fst (dispatch t p)"] show ?thesis
        by (simp add: fcfs_loop_Cons)
    qed
  qed
qed

lemma fcfs_loop_completion:
  "i < length ps \<Longrightarrow>
   completion_time (fcfs_loop t ps [] ! i)
     = Some (max (if i = 0 then t else the (completion_time (fcfs_loop t ps [] ! (i - 1))))
                 (arrival_time (ps ! i))
             + burst_time (ps ! i))"
proof (induction ps arbitrary: t i)
  case Nil
  then show ?case by simp
next
  case (Cons p ps)
  show ?case
  proof (cases i)
    case 0
    then show ?thesis by (simp add: fcfs_loop_Cons dispatch_eq)
  next
    case (Suc j)
    with Cons.prems have j: "j < length ps" by simp
    show ?thesis
    proof (cases j)
      case 0
      with Suc j Cons.IH [of 0 "fst (dispatch t p)"] show ?thesis
        by (simp add: fcfs_loop_Cons dispatch_eq)
    next
      case (Suc k)
      with \<open>i = Suc j\<close> j Cons.IH [of j "fst (dispatch t p)"] show ?thesis
        by (simp add: fcfs_loop_Cons)
    qed
  qed
qed

section \<open>The sorting policies dispatch the sorted list in order\<close>

lemma sort_key_tl_sorted:
  assumes "sort_key f xs = p # rest"
  shows "sort_key f rest = rest"
proof -
  have "sorted (map f (sort_key f xs))" by (rule sorted_sort_key)
  with assms have "sorted (map f rest)" by simp
  then show ?thesis by (rule sort_key_id_if_sorted)
qed

lemma sort_key_Cons_set:
  assumes "sort_key f xs = p # rest"
  shows "set xs = insert p (set rest)"
proof -
  have "set (sort_key f xs) = set xs" by simp
  with assms show ?thesis by simp
qed

lemma sort_key_Cons_mset:
  assumes "sort_key f xs = p # rest"
  shows "mset xs = add_mset p (mset rest)"
proof -
  have "mset (sort_key f xs) = mset xs" by simp
  with assms show ?thesis by simp
qed

lemma sort_key_Cons_least:
  assumes "sort_key f xs = p # rest" and "r \<in> set xs"
  shows "f p \<le> f r"
proof -
  have "sorted (map f (sort_key f xs))" by (rule sorted_sort_key)
  with assms(1) have "\<forall>y \<in> set rest. f p \<le> f y" by simp
  moreover from assms have "r = p \<or> r \<in> set rest"
    using sort_key_Cons_set [OF assms(1)] by simp
  ultimately show ?thesis by auto
qed

lemma sort_key_nonempty:
  assumes "xs \<noteq> []"
  obtains p rest where "sort_key f xs = p # rest"
proof (cases "sort_key f xs")
  case Nil
  then have "length (sort_key f xs) = 0" by simp
  with assms show ?thesis by simp
next
  case (Cons p rest)
  then show ?thesis by (rule that)
qed

lemma sjf_step_Cons:
  assumes "sort_key sjf_key (remaining_processes s) = p # rest"
  shows "sjf_step s =
           \<lparr>remaining_processes = rest,
            current_time = fst (dispatch (current_time s) p),
            completed_processes = completed_processes s @ [snd (dispatch (current_time s) p)]\<rparr>"
  using assms by (simp add: sjf_step_def split: prod.split)

lemma sjf_loop_eq_fcfs_loop:
  "sjf_loop s =
     fcfs_loop (current_time s) (sort_key sjf_key (remaining_processes s))
       (completed_processes s)"
proof (induction s rule: sjf_loop.induct)
  case (1 s)
  show ?case
  proof (cases "remaining_processes s = []")
    case True
    then show ?thesis by (simp add: sjf_loop.simps [of s])
  next
    case False
    then obtain p rest where srt: "sort_key sjf_key (remaining_processes s) = p # rest"
      by (rule sort_key_nonempty)
    have "sjf_loop s = sjf_loop (sjf_step s)"
      using False by (simp add: sjf_loop.simps [of s])
    also have "\<dots> = fcfs_loop (fst (dispatch (current_time s) p)) rest
                       (completed_processes s @ [snd (dispatch (current_time s) p)])"
      using "1.IH" [OF False] sort_key_tl_sorted [OF srt]
      by (simp add: sjf_step_Cons [OF srt])
    also have "\<dots> = fcfs_loop (current_time s) (p # rest) (completed_processes s)"
      by (simp add: fcfs_loop.simps(2) split: prod.split)
    finally show ?thesis by (simp add: srt)
  qed
qed

lemma SJF_run_eq: "SJF_run ps = FCFS_run (sort_key sjf_key ps)"
  by (simp add: SJF_run_def FCFS_run_def init_def sjf_loop_eq_fcfs_loop)

lemma priority_step_Cons:
  assumes "priority_sort (remaining_processes s) = Inr (p # rest)"
  shows "priority_step s =
           Inr \<lparr>remaining_processes = rest,
                current_time = fst (dispatch (current_time s) p),
                completed_processes =
                  completed_processes s @ [snd (dispatch (current_time s) p)]\<rparr>"
  using assms by (simp add: priority_step_def split: prod.split)

lemma priority_loop_eq:
  "priority_loop s =
     (if (\<exists>x \<in> set (remaining_processes s). priority x = None) \<and>
         (\<exists>x \<in> set (remaining_processes s). priority x \<noteq> None)
      then Inl TypeError
      else Inr (fcfs_loop (current_time s) (sort_key priority_key (remaining_processes s))
                  (completed_processes s)))"
proof (induction s rule: priority_loop.induct)
  case (1 s)
  show ?case
  proof (cases "remaining_processes s = []")
    case True
    then show ?thesis by (simp add: priority_loop.simps [of s])
  next
    case False
    show ?thesis
    proof (cases "(\<exists>x \<in> set (remaining_processes s). priority x = None) \<and>
                  (\<exists>x \<in> set (remaining_processes s). priority x \<noteq> None)")
      case True
      then have "priority_sort (remaining_processes s) = Inl TypeError"
        by (simp add: priority_sort_def)
      then have "priority_step s = Inl TypeError"
        by (simp add: priority_step_def)
      with False True show ?thesis
        by (simp add: priority_loop.simps [of s])
    next
      case unmixed: False
      obtain p rest where srt: "sort_key priority_key (remaining_processes s) = p # rest"
        using False by (rule sort_key_nonempty)
      from unmixed have ps: "priority_sort (remaining_processes s) = Inr (p # rest)"
        by (simp add: priority_sort_def srt)
      let ?s' = "\<lparr>remaining_processes = rest,
                  current_time = fst (dispatch (current_time s) p),
                  completed_processes =
                    completed_processes s @ [snd (dispatch (current_time s) p)]\<rparr>"
      have st: "priority_step s = Inr ?s'" by (rule priority_step_Cons [OF ps])
      have sub: "set rest \<subseteq> set (remaining_processes s)"
        using sort_key_Cons_set [OF srt] by auto
      with unmixed have unmixed':
        "\<not> ((\<exists>x \<in> set rest. priority x = None) \<and> (\<exists>x \<in> set rest. priority x \<noteq> None))"
        by blast
      have "priority_loop s = priority_loop ?s'"
        using False st by (simp add: priority_loop.simps [of s])
      also have "\<dots> = Inr (fcfs_loop (fst (dispatch (current_time s) p)) rest
                       (completed_processes s @ [snd (dispatch (current_time s) p)]))"
        using "1.IH" [OF False st] unmixed' sort_key_tl_sorted [OF srt] by simp
      also have "\<dots> = Inr (fcfs_loop (current_time s) (p # rest) (completed_processes s))"
        by (simp add: fcfs_loop.simps(2) split: prod.split)
      finally show ?thesis using unmixed by (simp add: srt)
    qed
  qed
qed

lemma Priority_run_eq:
  "Priority_run ps =
     (if (\<exists>x \<in> set ps. priority x = None) \<and> (\<exists>x \<in> set ps. priority x \<noteq> None)
      then Inl TypeError
      else Inr (FCFS_run (sort_key priority_key ps)))"
  by (simp add: Priority_run_def FCFS_run_def init_def priority_loop_eq)

section \<open>Round robin when no job exceeds the quantum\<close>

lemma rr_loop_eq_fcfs_loop:
  "\<forall>p \<in> set ps. burst_time p \<le> q \<Longrightarrow>
   rr_loop q \<lparr>remaining_processes = ps, current_time = t, completed_processes = acc\<rparr>
     = Some (fcfs_loop t ps acc)"
proof (induction ps arbitrary: t acc)
  case Nil
  show ?case by (simp add: rr_loop.simps)
next
  case (Cons p ps)
  from Cons.prems have p: "burst_time p \<le> q" and ps: "\<forall>x \<in> set ps. burst_time x \<le> q"
    by simp_all
  have step: "rr_step q \<lparr>remaining_processes = p # ps, current_time = t,
                          completed_processes = acc\<rparr>
              = \<lparr>remaining_processes = ps, current_time = fst (dispatch t p),
                 completed_processes = acc @ [snd (dispatch t p)]\<rparr>"
    using p by (simp add: rr_step_def dispatch_def Let_def)
  have "rr_loop q \<lparr>remaining_processes = p # ps, current_time = t, completed_processes = acc\<rparr>
        = rr_loop q \<lparr>remaining_processes = ps, current_time = fst (dispatch t p),
                      completed_processes = acc @ [snd (dispatch t p)]\<rparr>"
    by (subst rr_loop.simps) (simp add: step)
  also have "\<dots> = Some (fcfs_loop (fst (dispatch t p)) ps (acc @ [snd (dispatch t p)]))"
    by (rule Cons.IH [OF ps])
  also have "\<dots> = Some (fcfs_loop t (p # ps) acc)"
    by (simp add: fcfs_loop.simps(2) split: prod.split)
  finally show ?case .
qed

section \<open>Every job that the FCFS loop completes is an input job with its times set\<close>

lemma fcfs_loop_member:
  "p \<in> set (fcfs_loop t ps []) \<Longrightarrow>
   \<exists>p0 \<in> set ps. \<exists>s. arrival_time p0 \<le> s \<and>
      p = p0\<lparr>start_time := Some s, completion_time := Some (s + burst_time p0)\<rparr>"
proof (induction ps arbitrary: t)
  case Nil
  then show ?case by simp
next
  case (Cons a ps)
  from Cons.prems
  have "p = snd (dispatch t a) \<or> p \<in> set (fcfs_loop (fst (dispatch t a)) ps [])"
    by (simp add: fcfs_loop_Cons)
  then show ?case
  proof
    assume "p = snd (dispatch t a)"
    then have "arrival_time a \<le> max t (arrival_time a) \<and>
               p = a\<lparr>start_time := Some (max t (arrival_time a)),
                     completion_time := Some (max t (arrival_time a) + burst_time a)\<rparr>"
      by (simp add: dispatch_eq)
    then show ?thesis
      by (intro bexI [of _ a] exI [of _ "max t (arrival_time a)"]) simp_all
  next
    assume "p \<in> set (fcfs_loop (fst (dispatch t a)) ps [])"
    from Cons.IH [OF this] obtain p0 s where "p0 \<in> set ps" and "arrival_time p0 \<le> s"
      and "p = p0\<lparr>start_time := Some s, completion_time := Some (s + burst_time p0)\<rparr>"
      by blast
    then show ?thesis
      by (intro bexI [of _ p0] exI [of _ s]) simp_all
  qed
qed

lemma FCFS_run_member:
  "p \<in> set (FCFS_run ps) \<Longrightarrow>
   \<exists>p0 \<in> set ps. \<exists>s. arrival_time p0 \<le> s \<and>
      p = p0\<lparr>start_time := Some s, completion_time := Some (s + burst_time p0)\<rparr>"
  unfolding FCFS_run_def by (rule fcfs_loop_member)

lemma SJF_run_member:
  "p \<in> set (SJF_run ps) \<Longrightarrow>
   \<exists>p0 \<in> set ps. \<exists>s. arrival_time p0 \<le> s \<and>
      p = p0\<lparr>start_time := Some s, completion_time := Some (s + burst_time p0)\<rparr>"
  using FCFS_run_member [of p "sort_key sjf_key ps"] by (simp add: SJF_run_eq)

lemma Priority_run_member:
  "Priority_run ps = Inr out \<Longrightarrow> p \<in> set out \<Longrightarrow>
   \<exists>p0 \<in> set ps. \<exists>s. arrival_time p0 \<le> s \<and>
      p = p0\<lparr>start_time := Some s, completion_time := Some (s + burst_time p0)\<rparr>"
  using FCFS_run_member [of p "sort_key priority_key ps"]
  by (auto simp: Priority_run_eq split: if_splits)

section \<open>Iterating a loop body\<close>

lemma funpow_invariant:
  assumes "I s" and "\<And>x. I x \<Longrightarrow> I (f x)"
  shows "I ((f ^^ n) s)"
  using assms by (induction n) simp_all

section \<open>The round-robin loop: termination, invariants, divergence\<close>

lemma rr_step_Nil: "remaining_processes s = [] \<Longrightarrow> rr_step q s = s"
  by (simp add: rr_step_def)

lemma rr_step_requeue:
  assumes "remaining_processes s = p # rest" and "q < burst_time p"
  shows "rr_step q s =
           \<lparr>remaining_processes =
              rest @ [p\<lparr>start_time := Some (max (current_time s) (arrival_time p)),
                        burst_time := burst_time p - q\<rparr>],
            current_time = max (current_time s) (arrival_time p) + q,
            completed_processes = completed_processes s\<rparr>"
  using assms by (simp add: rr_step_def Let_def max_def)

lemma rr_step_complete:
  assumes "remaining_processes s = p # rest" and "\<not> q < burst_time p"
  shows "rr_step q s =
           \<lparr>remaining_processes = rest,
            current_time = max (current_time s) (arrival_time p) + burst_time p,
            completed_processes =
              completed_processes s @
                [p\<lparr>start_time := Some (max (current_time s) (arrival_time p)),
                   completion_time :=
                     Some (max (current_time s) (arrival_time p) + burst_time p)\<rparr>]\<rparr>"
  using assms by (simp add: rr_step_def Let_def max_def)

lemma rr_step_measure:
  assumes "0 < q" and "remaining_processes s \<noteq> []"
  shows "(\<Sum>p \<leftarrow> remaining_processes (rr_step q s). Suc (nat (burst_time p)))
         < (\<Sum>p \<leftarrow> remaining_processes s. Suc (nat (burst_time p)))"
proof -
  from assms(2) obtain p rest where rem: "remaining_processes s = p # rest"
    by (cases "remaining_processes s") auto
  show ?thesis
  proof (cases "q < burst_time p")
    case True
    with assms(1) have "nat (burst_time p - q) < nat (burst_time p)" by simp
    then show ?thesis
      by (simp add: rr_step_requeue [OF rem True] rem)
  next
    case False
    show ?thesis
      by (simp add: rr_step_complete [OF rem False] rem)
  qed
qed

lemma rr_loop_iterate:
  assumes "0 < q"
  shows "\<exists>n. remaining_processes ((rr_step q ^^ n) s) = [] \<and>
             rr_loop q s = Some (completed_processes ((rr_step q ^^ n) s))"
proof (induction s rule: measure_induct_rule
    [where f = "\<lambda>s. \<Sum>p \<leftarrow> remaining_processes s. Suc (nat (burst_time p))"])
  case (less s)
  show ?case
  proof (cases "remaining_processes s = []")
    case True
    then have "rr_loop q s = Some (completed_processes s)"
      by (subst rr_loop.simps) simp
    with True show ?thesis
      by (intro exI [of _ 0]) simp
  next
    case False
    from less.IH [OF rr_step_measure [OF assms False]]
    obtain n where n: "remaining_processes ((rr_step q ^^ n) (rr_step q s)) = []"
      and r: "rr_loop q (rr_step q s)
                = Some (completed_processes ((rr_step q ^^ n) (rr_step q s)))"
      by blast
    have "rr_loop q s = rr_loop q (rr_step q s)"
      using False by (subst rr_loop.simps) simp
    with n r show ?thesis
      by (intro exI [of _ "Suc n"]) (simp add: funpow_swap1)
  qed
qed

lemma rr_step_ids:
  "mset (map process_id (remaining_processes (rr_step q s))) +
     mset (map process_id (completed_processes (rr_step q s)))
   = mset (map process_id (remaining_processes s)) +
     mset (map process_id (completed_processes s))"
proof (cases "remaining_processes s")
  case Nil
  then show ?thesis by (simp add: rr_step_Nil)
next
  case (Cons p rest)
  show ?thesis
  proof (cases "q < burst_time p")
    case True
    show ?thesis by (simp add: rr_step_requeue [OF Cons True] Cons)
  next
    case False
    show ?thesis by (simp add: rr_step_complete [OF Cons False] Cons)
  qed
qed

text \<open>
  The invariant of the round-robin loop on valid input: every job still queued has a
  positive burst time, and every completed job is well timed and keeps a burst time
  between 1 and the quantum (the length of its last slice).
\<close>

lemma rr_step_bursts:
  assumes "\<forall>p \<in> set (remaining_processes s). 0 < burst_time p"
    and "\<forall>p \<in> set (completed_processes s). timed_ok p \<and> 0 < burst_time p \<and> burst_time p \<le> q"
  shows "(\<forall>p \<in> set (remaining_processes (rr_step q s)). 0 < burst_time p) \<and>
         (\<forall>p \<in> set (completed_processes (rr_step q s)).
            timed_ok p \<and> 0 < burst_time p \<and> burst_time p \<le> q)"
proof (cases "remaining_processes s")
  case Nil
  with assms show ?thesis by (simp add: rr_step_Nil)
next
  case (Cons p rest)
  with assms(1) have p: "0 < burst_time p" and rest: "\<forall>x \<in> set rest. 0 < burst_time x"
    by simp_all
  show ?thesis
  proof (cases "q < burst_time p")
    case True
    with rest assms(2) show ?thesis
      by (simp add: rr_step_requeue [OF Cons True])
  next
    case False
    with p rest assms(2) show ?thesis
      by (auto simp: rr_step_complete [OF Cons False] timed_ok_def)
  qed
qed

text \<open>
  With a quantum that is not positive, a job whose burst time exceeds the quantum is
  requeued with a burst time that is no smaller, so the queue never empties.
\<close>

lemma rr_loop_returns_only_if:
  assumes ret: "rr_loop q s = Some out"
  shows "q \<le> 0 \<longrightarrow> (\<forall>p \<in> set (remaining_processes s). burst_time p \<le> q)"
proof (rule rr_loop.raw_induct
    [where P = "\<lambda>q s out. q \<le> 0 \<longrightarrow> (\<forall>p \<in> set (remaining_processes s). burst_time p \<le> q)"])
  show "rr_loop q s = Some out" by (rule ret)
next
  fix loop :: "int \<Rightarrow> sim \<Rightarrow> process list option" and q s out
  assume IH: "\<And>q s out. loop q s = Some out \<Longrightarrow>
                q \<le> 0 \<longrightarrow> (\<forall>p \<in> set (remaining_processes s). burst_time p \<le> q)"
    and body: "(if remaining_processes s = [] then Some (completed_processes s)
                else loop q (rr_step q s)) = Some out"
  show "q \<le> 0 \<longrightarrow> (\<forall>p \<in> set (remaining_processes s). burst_time p \<le> q)"
  proof
    assume q: "q \<le> 0"
    show "\<forall>p \<in> set (remaining_processes s). burst_time p \<le> q"
    proof (cases "remaining_processes s")
      case Nil
      then show ?thesis by simp
    next
      case (Cons p rest)
      with body have call: "loop q (rr_step q s) = Some out"
        by simp
      from IH [OF call] q
      have ih: "\<forall>x \<in> set (remaining_processes (rr_step q s)). burst_time x \<le> q"
        by simp
      show ?thesis
      proof (cases "q < burst_time p")
        case True
        from ih have "burst_time p - q \<le> q"
          by (simp add: rr_step_requeue [OF Cons True])
        with True q show ?thesis by simp
      next
        case False
        with ih show ?thesis
          by (simp add: rr_step_complete [OF Cons False] Cons)
      qed
    qed
  qed
qed

lemma rr_loop_diverges:
  assumes "q \<le> 0" and "\<exists>p \<in> set (remaining_processes s). q < burst_time p"
  shows "rr_loop q s = None"
proof (cases "rr_loop q s")
  case None
  then show ?thesis .
next
  case (Some out)
  from rr_loop_returns_only_if [OF this] assms show ?thesis
    by force
qed

section \<open>The sorting loops as iterations of their bodies\<close>

lemma srtf_step_Nil: "remaining_processes s = [] \<Longrightarrow> srtf_step s = s"
  by (simp add: srtf_step_def)

lemma sjf_step_Nil: "remaining_processes s = [] \<Longrightarrow> sjf_step s = s"
  by (simp add: sjf_step_def)

lemma srtf_step_Cons:
  assumes "sort_key sjf_key (remaining_processes s) = p # rest"
  shows "srtf_step s =
           \<lparr>remaining_processes =
              filter (\<lambda>x. 0 < burst_time x)
                (srtf_discount (fst (dispatch (current_time s) p)) (burst_time p) rest),
            current_time = fst (dispatch (current_time s) p),
            completed_processes = completed_processes s @ [snd (dispatch (current_time s) p)]\<rparr>"
  using assms by (simp add: srtf_step_def dispatch_eq)

lemma length_srtf_step:
  assumes "remaining_processes s \<noteq> []"
  shows "length (remaining_processes (srtf_step s)) < length (remaining_processes s)"
proof -
  from assms obtain p rest where srt: "sort_key sjf_key (remaining_processes s) = p # rest"
    by (rule sort_key_nonempty)
  have "length (sort_key sjf_key (remaining_processes s)) = length (remaining_processes s)"
    by simp
  with srt have len: "Suc (length rest) = length (remaining_processes s)" by simp
  have "length (filter (\<lambda>x. 0 < burst_time x)
          (srtf_discount (fst (dispatch (current_time s) p)) (burst_time p) rest))
        \<le> length rest"
    using length_filter_le [of "\<lambda>x. 0 < burst_time x"
        "srtf_discount (fst (dispatch (current_time s) p)) (burst_time p) rest"]
    by (simp add: srtf_discount_def)
  with len show ?thesis
    by (simp add: srtf_step_Cons [OF srt])
qed



lemma srtf_loop_iterate:
  "\<exists>n \<le> length (remaining_processes s).
     remaining_processes ((srtf_step ^^ n) s) = [] \<and>
     srtf_loop s = completed_processes ((srtf_step ^^ n) s)"
proof (induction s rule: srtf_loop.induct)
  case (1 s)
  show ?case
  proof (cases "remaining_processes s = []")
    case True
    then have "srtf_loop s = completed_processes s" by (simp add: srtf_loop.simps [of s])
    with True show ?thesis by (intro exI [of _ 0]) simp
  next
    case False
    from "1.IH" [OF False] obtain n
      where n: "n \<le> length (remaining_processes (srtf_step s))"
        and e: "remaining_processes ((srtf_step ^^ n) (srtf_step s)) = []"
        and r: "srtf_loop (srtf_step s) = completed_processes ((srtf_step ^^ n) (srtf_step s))"
      by blast
    have "srtf_loop s = srtf_loop (srtf_step s)"
      using False by (simp add: srtf_loop.simps [of s])
    with n e r length_srtf_step [OF False] show ?thesis
      by (intro exI [of _ "Suc n"]) (simp add: funpow_swap1)
  qed
qed




section \<open>Invariants of the SRTF step\<close>

lemma process_id_dispatch: "process_id (snd (dispatch t p)) = process_id p"
  by (simp add: dispatch_eq)

lemma burst_time_dispatch: "burst_time (snd (dispatch t p)) = burst_time p"
  by (simp add: dispatch_eq)

lemma timed_ok_dispatch: "0 \<le> burst_time p \<Longrightarrow> timed_ok (snd (dispatch t p))"
  by (simp add: dispatch_eq timed_ok_def)

lemma times_set_dispatch:
  "start_time (snd (dispatch t p)) \<noteq> None \<and> completion_time (snd (dispatch t p)) \<noteq> None"
  by (simp add: dispatch_eq)

lemma process_id_srtf_discount: "map process_id (srtf_discount t served ps) = map process_id ps"
  by (simp add: srtf_discount_def)

lemma srtf_step_ids:
  "mset (map process_id (remaining_processes (srtf_step s))) +
     mset (map process_id (completed_processes (srtf_step s)))
   \<subseteq># mset (map process_id (remaining_processes s)) +
       mset (map process_id (completed_processes s))"
proof (cases "remaining_processes s = []")
  case True
  then show ?thesis by (simp add: srtf_step_Nil)
next
  case False
  then obtain p rest where srt: "sort_key sjf_key (remaining_processes s) = p # rest"
    by (rule sort_key_nonempty)
  let ?d = "srtf_discount (fst (dispatch (current_time s) p)) (burst_time p) rest"
  have "mset (map process_id (filter (\<lambda>x. 0 < burst_time x) ?d))
        \<subseteq># mset (map process_id ?d)"
    by (simp add: image_mset_subseteq_mono)
  then have sub: "mset (map process_id (filter (\<lambda>x. 0 < burst_time x) ?d))
        \<subseteq># mset (map process_id rest)"
    by (simp only: process_id_srtf_discount)
  have rem: "mset (remaining_processes s) = add_mset p (mset rest)"
    by (rule sort_key_Cons_mset [OF srt])
  from sub show ?thesis
    by (simp add: srtf_step_Cons [OF srt] rem process_id_dispatch)
qed

lemma srtf_discount_nonneg:
  assumes "sort_key sjf_key ps = p # rest" and "\<forall>x \<in> set ps. 0 < burst_time x"
  shows "\<forall>r \<in> set (srtf_discount t (burst_time p) rest). 0 \<le> burst_time r"
proof
  fix r assume "r \<in> set (srtf_discount t (burst_time p) rest)"
  then obtain x where x: "x \<in> set rest"
    and r: "r = (if arrival_time x \<le> t then x\<lparr>burst_time := burst_time x - burst_time p\<rparr> else x)"
    by (auto simp: srtf_discount_def)
  from x have mem: "x \<in> set ps" using sort_key_Cons_set [OF assms(1)] by simp
  with assms(1) have "sjf_key p \<le> sjf_key x" by (rule sort_key_Cons_least)
  then have "burst_time p \<le> burst_time x"
    by (auto simp: sjf_key_def less_eq_prod_def)
  moreover from mem assms(2) have "0 < burst_time x" by simp
  ultimately show "0 \<le> burst_time r" using r by simp
qed

text \<open>
  The invariant of the SRTF loop on valid input: positive burst times in the remaining
  list, and completed jobs that are well timed and keep a positive burst time.
\<close>

lemma srtf_step_bursts:
  assumes "\<forall>p \<in> set (remaining_processes s). 0 < burst_time p"
    and "\<forall>p \<in> set (completed_processes s). timed_ok p \<and> 0 < burst_time p"
  shows "(\<forall>p \<in> set (remaining_processes (srtf_step s)). 0 < burst_time p) \<and>
         (\<forall>p \<in> set (completed_processes (srtf_step s)). timed_ok p \<and> 0 < burst_time p)"
proof (cases "remaining_processes s = []")
  case True
  with assms show ?thesis by (simp add: srtf_step_Nil)
next
  case False
  then obtain p rest where srt: "sort_key sjf_key (remaining_processes s) = p # rest"
    by (rule sort_key_nonempty)
  have "p \<in> set (remaining_processes s)"
    using sort_key_Cons_set [OF srt] by simp
  with assms(1) have p: "0 < burst_time p" by simp
  then have "timed_ok (snd (dispatch (current_time s) p))"
    by (simp add: timed_ok_dispatch)
  with p assms(2) show ?thesis
    by (auto simp: srtf_step_Cons [OF srt] burst_time_dispatch)
qed

lemma srtf_step_times_set:
  assumes "\<forall>p \<in> set (completed_processes s). start_time p \<noteq> None \<and> completion_time p \<noteq> None"
  shows "\<forall>p \<in> set (completed_processes (srtf_step s)).
           start_time p \<noteq> None \<and> completion_time p \<noteq> None"
proof (cases "remaining_processes s = []")
  case True
  with assms show ?thesis by (simp add: srtf_step_Nil)
next
  case False
  then obtain p rest where srt: "sort_key sjf_key (remaining_processes s) = p # rest"
    by (rule sort_key_nonempty)
  from assms times_set_dispatch [of "current_time s" p] show ?thesis
    by (auto simp: srtf_step_Cons [OF srt])
qed

lemma srtf_loop_nonempty:
  "remaining_processes s \<noteq> [] \<or> completed_processes s \<noteq> [] \<Longrightarrow> srtf_loop s \<noteq> []"
proof (induction s rule: srtf_loop.induct)
  case (1 s)
  show ?case
  proof (cases "remaining_processes s = []")
    case True
    with "1.prems" show ?thesis by (simp add: srtf_loop.simps [of s])
  next
    case False
    then obtain p rest where srt: "sort_key sjf_key (remaining_processes s) = p # rest"
      by (rule sort_key_nonempty)
    have "completed_processes (srtf_step s) \<noteq> []"
      by (simp add: srtf_step_Cons [OF srt])
    with "1.IH" [OF False] have "srtf_loop (srtf_step s) \<noteq> []" by simp
    with False show ?thesis by (simp add: srtf_loop.simps [of s])
  qed
qed

section \<open>What the runs return on valid input\<close>

lemma process_id_FCFS_run: "map process_id (FCFS_run ps) = map process_id ps"
proof -
  have "map process_id (map untimed (FCFS_run ps)) = map process_id (map untimed ps)"
    by (simp only: FCFS_run_def untimed_fcfs_loop)
  then show ?thesis by (simp add: untimed_def comp_def)
qed

lemma timed_ok_member:
  assumes "\<exists>p0 \<in> set ps. \<exists>s. arrival_time p0 \<le> s \<and>
      p = p0\<lparr>start_time := Some s, completion_time := Some (s + burst_time p0)\<rparr>"
    and "\<forall>p \<in> set ps. 0 < burst_time p"
  shows "timed_ok p \<and> 0 < burst_time p"
proof -
  from assms(1) obtain p0 s where "p0 \<in> set ps" and "arrival_time p0 \<le> s"
    and "p = p0\<lparr>start_time := Some s, completion_time := Some (s + burst_time p0)\<rparr>"
    by blast
  with assms(2) show ?thesis by (auto simp: timed_ok_def)
qed

lemma rr_iterate_ids:
  "mset (map process_id (remaining_processes ((rr_step q ^^ n) (init ps)))) +
     mset (map process_id (completed_processes ((rr_step q ^^ n) (init ps))))
   = mset (map process_id ps)"
proof (rule funpow_invariant
    [where I = "\<lambda>s :: sim. mset (map process_id (remaining_processes s)) +
                     mset (map process_id (completed_processes s))
                   = mset (map process_id ps)"])
  show "mset (map process_id (remaining_processes (init ps))) +
          mset (map process_id (completed_processes (init ps)))
        = mset (map process_id ps)"
    by (simp add: init_def)
next
  fix s :: sim
  assume "mset (map process_id (remaining_processes s)) +
            mset (map process_id (completed_processes s))
          = mset (map process_id ps)"
  with rr_step_ids [of q s]
  show "mset (map process_id (remaining_processes (rr_step q s))) +
          mset (map process_id (completed_processes (rr_step q s)))
        = mset (map process_id ps)"
    by simp
qed

lemma rr_iterate_bursts:
  assumes "\<forall>p \<in> set ps. 0 < burst_time p"
  shows "(\<forall>p \<in> set (remaining_processes ((rr_step q ^^ n) (init ps))). 0 < burst_time p) \<and>
         (\<forall>p \<in> set (completed_processes ((rr_step q ^^ n) (init ps))).
            timed_ok p \<and> 0 < burst_time p \<and> burst_time p \<le> q)"
proof (rule funpow_invariant
    [where I = "\<lambda>s :: sim. (\<forall>p \<in> set (remaining_processes s). 0 < burst_time p) \<and>
                     (\<forall>p \<in> set (completed_processes s).
                        timed_ok p \<and> 0 < burst_time p \<and> burst_time p \<le> q)"])
  from assms
  show "(\<forall>p \<in> set (remaining_processes (init ps)). 0 < burst_time p) \<and>
        (\<forall>p \<in> set (completed_processes (init ps)).
           timed_ok p \<and> 0 < burst_time p \<and> burst_time p \<le> q)"
    by (simp add: init_def)
next
  fix s :: sim
  assume "(\<forall>p \<in> set (remaining_processes s). 0 < burst_time p) \<and>
          (\<forall>p \<in> set (completed_processes s).
             timed_ok p \<and> 0 < burst_time p \<and> burst_time p \<le> q)"
  then show "(\<forall>p \<in> set (remaining_processes (rr_step q s)). 0 < burst_time p) \<and>
             (\<forall>p \<in> set (completed_processes (rr_step q s)).
                timed_ok p \<and> 0 < burst_time p \<and> burst_time p \<le> q)"
    using rr_step_bursts [of s q] by blast
qed

lemma RoundRobin_run_valid:
  assumes "0 < q" and "\<forall>p \<in> set ps. 0 < burst_time p"
  shows "\<exists>out. RoundRobin_run q ps = Some out \<and>
           mset (map process_id out) = mset (map process_id ps) \<and>
           (\<forall>p \<in> set out. timed_ok p \<and> 0 < burst_time p \<and> burst_time p \<le> q)"
proof -
  from rr_loop_iterate [OF assms(1), of "init ps"] obtain n
    where e: "remaining_processes ((rr_step q ^^ n) (init ps)) = []"
      and r: "RoundRobin_run q ps = Some (completed_processes ((rr_step q ^^ n) (init ps)))"
    by (auto simp: RoundRobin_run_def)
  from rr_iterate_ids [where q = q and n = n and ps = ps] e
  have "mset (map process_id (completed_processes ((rr_step q ^^ n) (init ps))))
        = mset (map process_id ps)"
    by simp
  with r rr_iterate_bursts [OF assms(2), where q = q and n = n] show ?thesis by blast
qed

lemma srtf_iterate_ids:
  "mset (map process_id (remaining_processes ((srtf_step ^^ n) (init ps)))) +
     mset (map process_id (completed_processes ((srtf_step ^^ n) (init ps))))
   \<subseteq># mset (map process_id ps)"
proof (rule funpow_invariant
    [where I = "\<lambda>s :: sim. mset (map process_id (remaining_processes s)) +
                     mset (map process_id (completed_processes s))
                   \<subseteq># mset (map process_id ps)"])
  show "mset (map process_id (remaining_processes (init ps))) +
          mset (map process_id (completed_processes (init ps)))
        \<subseteq># mset (map process_id ps)"
    by (simp add: init_def)
next
  fix s :: sim
  assume "mset (map process_id (remaining_processes s)) +
            mset (map process_id (completed_processes s))
          \<subseteq># mset (map process_id ps)"
  with srtf_step_ids [of s]
  show "mset (map process_id (remaining_processes (srtf_step s))) +
          mset (map process_id (completed_processes (srtf_step s)))
        \<subseteq># mset (map process_id ps)"
    by (rule subset_mset.order_trans)
qed

lemma srtf_iterate_bursts:
  assumes "\<forall>p \<in> set ps. 0 < burst_time p"
  shows "(\<forall>p \<in> set (remaining_processes ((srtf_step ^^ n) (init ps))). 0 < burst_time p) \<and>
         (\<forall>p \<in> set (completed_processes ((srtf_step ^^ n) (init ps))).
            timed_ok p \<and> 0 < burst_time p)"
proof (rule funpow_invariant
    [where I = "\<lambda>s :: sim. (\<forall>p \<in> set (remaining_processes s). 0 < burst_time p) \<and>
                     (\<forall>p \<in> set (completed_processes s). timed_ok p \<and> 0 < burst_time p)"])
  from assms
  show "(\<forall>p \<in> set (remaining_processes (init ps)). 0 < burst_time p) \<and>
        (\<forall>p \<in> set (completed_processes (init ps)). timed_ok p \<and> 0 < burst_time p)"
    by (simp add: init_def)
next
  fix s :: sim
  assume "(\<forall>p \<in> set (remaining_processes s). 0 < burst_time p) \<and>
          (\<forall>p \<in> set (completed_processes s). timed_ok p \<and> 0 < burst_time p)"
  then show "(\<forall>p \<in> set (remaining_processes (srtf_step s)). 0 < burst_time p) \<and>
             (\<forall>p \<in> set (completed_processes (srtf_step s)). timed_ok p \<and> 0 < burst_time p)"
    using srtf_step_bursts [of s] by blast
qed

lemma SRTF_run_valid:
  assumes "\<forall>p \<in> set ps. 0 < burst_time p"
  shows "mset (map process_id (SRTF_run ps)) \<subseteq># mset (map process_id ps) \<and>
         (\<forall>p \<in> set (SRTF_run ps). timed_ok p \<and> 0 < burst_time p)"
proof -
  from srtf_loop_iterate [of "init ps"] obtain n
    where e: "remaining_processes ((srtf_step ^^ n) (init ps)) = []"
      and r: "SRTF_run ps = completed_processes ((srtf_step ^^ n) (init ps))"
    by (auto simp: SRTF_run_def)
  from srtf_iterate_ids [where n = n and ps = ps] e
  have "mset (map process_id (completed_processes ((srtf_step ^^ n) (init ps))))
        \<subseteq># mset (map process_id ps)"
    by simp
  with r srtf_iterate_bursts [OF assms, where n = n] show ?thesis by simp
qed

lemma length_eq_of_ids:
  "mset (map process_id out) = mset (map process_id ps) \<Longrightarrow> length out = length ps"
proof -
  assume "mset (map process_id out) = mset (map process_id ps)"
  then have "size (mset (map process_id out)) = size (mset (map process_id ps))"
    by (simp only:)
  then show ?thesis by simp
qed

lemma length_le_of_ids:
  "mset (map process_id out) \<subseteq># mset (map process_id ps) \<Longrightarrow> length out \<le> length ps"
proof -
  assume "mset (map process_id out) \<subseteq># mset (map process_id ps)"
  then have "size (mset (map process_id out)) \<le> size (mset (map process_id ps))"
    by (rule size_mset_mono)
  then show ?thesis by simp
qed

section \<open>Both times are set whatever the input\<close>

lemma FCFS_run_times_set:
  "p \<in> set (FCFS_run ps) \<Longrightarrow> start_time p \<noteq> None \<and> completion_time p \<noteq> None"
  using FCFS_run_member [of p ps] by auto

lemma SRTF_run_times_set:
  "p \<in> set (SRTF_run ps) \<Longrightarrow> start_time p \<noteq> None \<and> completion_time p \<noteq> None"
proof -
  assume p: "p \<in> set (SRTF_run ps)"
  from srtf_loop_iterate [of "init ps"] obtain n
    where r: "SRTF_run ps = completed_processes ((srtf_step ^^ n) (init ps))"
    by (auto simp: SRTF_run_def)
  have "\<forall>x \<in> set (completed_processes ((srtf_step ^^ n) (init ps))).
          start_time x \<noteq> None \<and> completion_time x \<noteq> None"
  proof (rule funpow_invariant
      [where I = "\<lambda>s :: sim. \<forall>x \<in> set (completed_processes s).
                     start_time x \<noteq> None \<and> completion_time x \<noteq> None"])
    show "\<forall>x \<in> set (completed_processes (init ps)).
            start_time x \<noteq> None \<and> completion_time x \<noteq> None"
      by (simp add: init_def)
  next
    fix s :: sim
    assume "\<forall>x \<in> set (completed_processes s).
              start_time x \<noteq> None \<and> completion_time x \<noteq> None"
    then show "\<forall>x \<in> set (completed_processes (srtf_step s)).
              start_time x \<noteq> None \<and> completion_time x \<noteq> None"
      by (rule srtf_step_times_set)
  qed
  with p r show ?thesis by simp
qed

section \<open>Rounding to double precision\<close>

lemma bit_length_bounds:
  "0 < n \<Longrightarrow> 2 ^ (bit_length n - 1) \<le> n \<and> n < 2 ^ bit_length n"
proof (induction n rule: bit_length.induct)
  case (1 n)
  show ?case
  proof (cases "n div 2 = 0")
    case True
    with "1.prems" have "n = 1" by presburger
    then show ?thesis
      by (simp add: bit_length.simps [of "Suc 0"] bit_length.simps [of 0])
  next
    case False
    then have m: "0 < n div 2" by simp
    from "1.prems" have n: "n \<noteq> 0" by simp
    from "1.IH" [OF n m]
    have lo: "2 ^ (bit_length (n div 2) - 1) \<le> n div 2"
      and hi: "n div 2 < 2 ^ bit_length (n div 2)"
      by simp_all
    have bl: "bit_length n = Suc (bit_length (n div 2))"
      using n by (simp add: bit_length.simps [of n])
    have pos: "0 < bit_length (n div 2)"
      using m by (simp add: bit_length.simps [of "n div 2"])
    then obtain k where k: "bit_length (n div 2) = Suc k"
      by (cases "bit_length (n div 2)") auto
    from lo k have "2 * 2 ^ k \<le> 2 * (n div 2)" by simp
    also have "\<dots> \<le> n" by presburger
    finally have a: "2 ^ (bit_length n - 1) \<le> n" by (simp add: bl k)
    from hi have "Suc (n div 2) \<le> 2 ^ bit_length (n div 2)" by simp
    then have "2 * Suc (n div 2) \<le> 2 * 2 ^ bit_length (n div 2)" by simp
    moreover have "n < 2 * Suc (n div 2)" by presburger
    ultimately have b: "n < 2 ^ bit_length n" by (simp add: bl)
    from a b show ?thesis ..
  qed
qed

lemma bit_length_pos: "0 < n \<Longrightarrow> 0 < bit_length n"
  by (simp add: bit_length.simps [of n])

lemma floor_log2_bounds:
  assumes "0 < x"
  shows "2 powi floor_log2 x \<le> x \<and> x < 2 powi (floor_log2 x + 1)"
proof (cases "1 \<le> x")
  case True
  define n where "n = nat \<lfloor>x\<rfloor>"
  define k where "k = bit_length n"
  from True have fl: "1 \<le> \<lfloor>x\<rfloor>" by simp
  then have n: "0 < n" and nx: "int n = \<lfloor>x\<rfloor>" by (simp_all add: n_def)
  from bit_length_bounds [OF n] have lo: "2 ^ (k - 1) \<le> n" and hi: "n < 2 ^ k"
    by (simp_all add: k_def)
  from bit_length_pos [OF n] have kpos: "0 < k" by (simp add: k_def)
  have e: "floor_log2 x = int k - 1"
    using True by (simp add: floor_log2_def n_def k_def)
  have e1: "int k - 1 = int (k - 1)" using kpos by simp
  have "(2::rat) powi (int k - 1) = 2 ^ (k - 1)"
    by (simp only: e1 power_int_of_nat)
  also have "\<dots> = of_nat (2 ^ (k - 1))" by simp
  also have "\<dots> \<le> of_nat n" using lo by (simp only: of_nat_le_iff)
  also have "\<dots> = of_int \<lfloor>x\<rfloor>" by (simp flip: nx)
  also have "\<dots> \<le> x" by simp
  finally have a: "2 powi floor_log2 x \<le> x" by (simp only: e)
  have "x < of_int (\<lfloor>x\<rfloor> + 1)" by linarith
  also have "\<dots> = of_nat (Suc n)" by (simp flip: nx)
  also have "\<dots> \<le> of_nat (2 ^ k)" using hi by (simp only: of_nat_le_iff Suc_le_eq)
  also have "\<dots> = (2::rat) powi (int k)" by simp
  finally have b: "x < 2 powi (floor_log2 x + 1)" by (simp add: e)
  from a b show ?thesis ..
next
  case False
  with assms have x: "0 < x" "x < 1" by simp_all
  define y where "y = 1 / x"
  define m where "m = nat (\<lceil>y\<rceil> - 1)"
  define k where "k = bit_length m"
  from x have y: "1 < y" by (simp add: y_def)
  then have c: "2 \<le> \<lceil>y\<rceil>" by linarith
  then have m: "0 < m" and my: "int m = \<lceil>y\<rceil> - 1" by (simp_all add: m_def)
  from bit_length_bounds [OF m] have lo: "2 ^ (k - 1) \<le> m" and hi: "m < 2 ^ k"
    by (simp_all add: k_def)
  from bit_length_pos [OF m] have kpos: "0 < k" by (simp add: k_def)
  have e: "floor_log2 x = - int k"
    using False by (simp add: floor_log2_def m_def k_def y_def)
  have "y \<le> of_int \<lceil>y\<rceil>" by simp
  also have "\<dots> = of_nat (Suc m)"
  proof -
    from my have "\<lceil>y\<rceil> = int m + 1" by simp
    then show ?thesis by simp
  qed
  also have "\<dots> \<le> of_nat (2 ^ k)" using hi by (simp only: of_nat_le_iff Suc_le_eq)
  finally have yk: "y \<le> 2 ^ k" by simp
  have "(of_nat (2 ^ (k - 1)) :: rat) \<le> of_nat m" using lo by (simp only: of_nat_le_iff)
  also have "\<dots> = of_int (\<lceil>y\<rceil> - 1)" by (simp flip: my)
  also have "\<dots> < y" by linarith
  finally have ky: "2 ^ (k - 1) < y" by simp
  have "(2::rat) powi (- int k) = 1 / 2 ^ k"
    by (simp add: power_int_minus divide_inverse)
  also have "\<dots> \<le> 1 / y" using yk y by (simp add: frac_le)
  also have "\<dots> = x" by (simp add: y_def)
  finally have a: "2 powi floor_log2 x \<le> x" by (simp only: e)
  have e1: "- int k + 1 = - int (k - 1)" using kpos by simp
  have "x = 1 / y" by (simp add: y_def)
  also have "\<dots> < 1 / 2 ^ (k - 1)" using ky by (simp add: frac_less2)
  also have "\<dots> = (2::rat) powi (- int (k - 1))"
    by (simp add: power_int_minus divide_inverse)
  finally have b: "x < 2 powi (floor_log2 x + 1)" by (simp only: e e1)
  from a b show ?thesis ..
qed

lemma powi2_strict_mono: "a < b \<Longrightarrow> (2::rat) powi a < 2 powi b"
  by (rule power_int_strict_increasing) simp_all

lemma powi2_mono: "a \<le> b \<Longrightarrow> (2::rat) powi a \<le> 2 powi b"
  by (rule power_int_increasing) simp_all

lemma floor_log2_unique:
  assumes "2 powi k \<le> x" and "x < 2 powi (k + 1)"
  shows "floor_log2 x = k"
proof -
  have "0 < (2::rat) powi k" by simp
  from this assms(1) have x: "0 < x" by (rule less_le_trans)
  note b = floor_log2_bounds [OF x]
  have "\<not> floor_log2 x < k"
  proof
    assume "floor_log2 x < k"
    then have "floor_log2 x + 1 \<le> k" by simp
    from powi2_mono [OF this] b assms(1) show False by simp
  qed
  moreover have "\<not> k < floor_log2 x"
  proof
    assume "k < floor_log2 x"
    then have "k + 1 \<le> floor_log2 x" by simp
    from powi2_mono [OF this] b assms(2) show False by simp
  qed
  ultimately show ?thesis by simp
qed


lemma round_half_even_cases:
  "round_half_even q = \<lfloor>q\<rfloor> \<or> round_half_even q = \<lfloor>q\<rfloor> + 1"
  by (simp add: round_half_even_def Let_def)

lemma round_half_even_error: "\<bar>of_int (round_half_even q) - q\<bar> \<le> 1 / 2"
proof -
  have f: "of_int \<lfloor>q\<rfloor> \<le> q" and c: "q < of_int \<lfloor>q\<rfloor> + 1" by linarith+
  show ?thesis
  proof (cases "q - of_int \<lfloor>q\<rfloor> < 1 / 2")
    case True
    then have "round_half_even q = \<lfloor>q\<rfloor>" by (simp add: round_half_even_def Let_def)
    with True f show ?thesis by simp
  next
    case False
    then have "round_half_even q = \<lfloor>q\<rfloor> \<and> q - of_int \<lfloor>q\<rfloor> = 1 / 2 \<or>
               round_half_even q = \<lfloor>q\<rfloor> + 1"
      by (auto simp: round_half_even_def Let_def)
    with False c show ?thesis by auto
  qed
qed

lemma round_half_even_of_int: "round_half_even (of_int n) = n"
  by (simp add: round_half_even_def Let_def)

lemma round_half_even_ge: "of_int n \<le> q \<Longrightarrow> n \<le> round_half_even q"
proof -
  assume "of_int n \<le> q"
  then have "n \<le> \<lfloor>q\<rfloor>" by (simp add: le_floor_iff)
  with round_half_even_cases [of q] show ?thesis by auto
qed

lemma round_half_even_le: "q \<le> of_int n \<Longrightarrow> round_half_even q \<le> n"
proof (cases "q = of_int n")
  case True
  then show ?thesis by (simp add: round_half_even_of_int)
next
  case False
  assume "q \<le> of_int n"
  with False have "q < of_int n" by simp
  then have "\<lfloor>q\<rfloor> < n" by (simp add: floor_less_iff)
  with round_half_even_cases [of q] show ?thesis by auto
qed

lemma round_half_even_reaches_even:
  assumes "even n" and "q < of_int n"
  shows "n \<le> round_half_even q \<longleftrightarrow> of_int n - 1 / 2 \<le> q"
proof
  assume ge: "n \<le> round_half_even q"
  from assms(2) have fl: "\<lfloor>q\<rfloor> < n" by (simp add: floor_less_iff)
  with ge round_half_even_cases [of q] have f: "\<lfloor>q\<rfloor> = n - 1" and r: "round_half_even q = \<lfloor>q\<rfloor> + 1"
    by auto
  from r have "\<not> q - of_int \<lfloor>q\<rfloor> < 1 / 2"
    by (auto simp: round_half_even_def Let_def)
  with f show "of_int n - 1 / 2 \<le> q" by simp
next
  assume lo: "of_int n - 1 / 2 \<le> q"
  then have "of_int (n - 1) \<le> q" by simp
  then have "n - 1 \<le> \<lfloor>q\<rfloor>" by (simp only: le_floor_iff)
  moreover from assms(2) have "\<lfloor>q\<rfloor> < n" by (simp add: floor_less_iff)
  ultimately have f: "\<lfloor>q\<rfloor> = n - 1" by simp
  with assms(1) have odd: "odd \<lfloor>q\<rfloor>" by simp
  from lo f have "\<not> q - of_int \<lfloor>q\<rfloor> < 1 / 2" by simp
  with odd have "round_half_even q = \<lfloor>q\<rfloor> + 1"
    by (simp add: round_half_even_def Let_def)
  with f show "n \<le> round_half_even q" by simp
qed

text \<open>For a positive argument.\<close>

lemma nearest_double_pos:
  assumes "0 < x"
  shows "nearest_double x =
           of_int (round_half_even (x / 2 powi (max (floor_log2 x) (- 1022) - 52))) *
             2 powi (max (floor_log2 x) (- 1022) - 52)"
  using assms by (simp add: nearest_double_def Let_def)

lemma nearest_double_abs: "\<bar>nearest_double x\<bar> = nearest_double \<bar>x\<bar>"
proof (cases "x = 0")
  case True
  then show ?thesis by (simp add: nearest_double_def)
next
  case False
  let ?u = "(2::rat) powi (max (floor_log2 \<bar>x\<bar>) (- 1022) - 52)"
  have u: "0 < ?u" by simp
  then have "0 \<le> \<bar>x\<bar> / ?u" by simp
  then have "of_int 0 \<le> \<bar>x\<bar> / ?u" by simp
  then have "0 \<le> round_half_even (\<bar>x\<bar> / ?u)" by (rule round_half_even_ge)
  then have nn: "0 \<le> of_int (round_half_even (\<bar>x\<bar> / ?u)) * ?u" using u by simp
  from False have "\<bar>nearest_double x\<bar> = \<bar>sgn x\<bar> * \<bar>of_int (round_half_even (\<bar>x\<bar> / ?u)) * ?u\<bar>"
    by (simp add: nearest_double_def Let_def abs_mult del: abs_sgn_eq)
  also have "\<dots> = of_int (round_half_even (\<bar>x\<bar> / ?u)) * ?u"
    using False nn by (simp add: abs_sgn_eq)
  also have "\<dots> = nearest_double \<bar>x\<bar>"
    using False by (simp add: nearest_double_def Let_def)
  finally show ?thesis .
qed

lemma nearest_double_diff_abs: "\<bar>nearest_double x - x\<bar> = \<bar>nearest_double \<bar>x\<bar> - \<bar>x\<bar>\<bar>"
proof (cases "x = 0")
  case True
  then show ?thesis by (simp add: nearest_double_def)
next
  case False
  let ?u = "(2::rat) powi (max (floor_log2 \<bar>x\<bar>) (- 1022) - 52)"
  let ?r = "of_int (round_half_even (\<bar>x\<bar> / ?u)) * ?u"
  have a: "nearest_double \<bar>x\<bar> = ?r" using False by (simp add: nearest_double_def Let_def)
  have b: "nearest_double x = sgn x * ?r" using False by (simp add: nearest_double_def Let_def)
  have "nearest_double x - x = sgn x * (?r - \<bar>x\<bar>)"
    by (simp add: b right_diff_distrib sgn_mult_abs)
  then have "\<bar>nearest_double x - x\<bar> = \<bar>sgn x\<bar> * \<bar>?r - \<bar>x\<bar>\<bar>"
    by (simp only: abs_mult)
  with False show ?thesis by (simp add: a abs_sgn_eq)
qed

lemma nearest_double_error_pos:
  assumes "0 < x"
  shows "\<bar>nearest_double x - x\<bar> \<le> 2 powi (max (floor_log2 x) (- 1022) - 53)"
proof -
  let ?e = "max (floor_log2 x) (- 1022)"
  let ?u = "(2::rat) powi (?e - 52)"
  have u: "0 < ?u" by simp
  have "nearest_double x - x = (of_int (round_half_even (x / ?u)) - x / ?u) * ?u"
    using u by (simp add: nearest_double_pos [OF assms] left_diff_distrib)
  then have "\<bar>nearest_double x - x\<bar> = \<bar>of_int (round_half_even (x / ?u)) - x / ?u\<bar> * ?u"
    using u by (simp add: abs_mult)
  also have "\<dots> \<le> 1 / 2 * ?u"
    using round_half_even_error [of "x / ?u"] u by (intro mult_right_mono) simp_all
  also have "\<dots> = 2 powi (?e - 53)"
  proof -
    have "(2::rat) powi (?e - 52) = 2 powi ((?e - 53) + 1)" by simp
    also have "\<dots> = 2 powi (?e - 53) * 2" by (rule power_int_add_1) simp
    finally show ?thesis by simp
  qed
  finally show ?thesis .
qed


lemma floor_log2_ge:
  assumes "2 powi k \<le> x"
  shows "k \<le> floor_log2 x"
proof (rule ccontr)
  assume "\<not> k \<le> floor_log2 x"
  then have "floor_log2 x + 1 \<le> k" by simp
  from powi2_mono [OF this] assms have le: "2 powi (floor_log2 x + 1) \<le> x" by simp
  have "0 < (2::rat) powi k" by simp
  from this assms have "0 < x" by (rule less_le_trans)
  from floor_log2_bounds [OF this] le show False by simp
qed

lemma floor_log2_less:
  assumes "0 < x" and "x < 2 powi k"
  shows "floor_log2 x < k"
proof (rule ccontr)
  assume "\<not> floor_log2 x < k"
  then have "k \<le> floor_log2 x" by simp
  from powi2_mono [OF this] floor_log2_bounds [OF assms(1)] assms(2) show False by simp
qed

lemma nearest_double_relative_error_pos:
  assumes "2 powi (- 1022) \<le> x"
  shows "\<bar>nearest_double x - x\<bar> \<le> x / 2 ^ 53"
proof -
  have "0 < (2::rat) powi (- 1022)" by simp
  from this assms have x: "0 < x" by (rule less_le_trans)
  from floor_log2_ge [OF assms] have e: "max (floor_log2 x) (- 1022) = floor_log2 x" by simp
  have "\<bar>nearest_double x - x\<bar> \<le> 2 powi (floor_log2 x - 53)"
    using nearest_double_error_pos [OF x] by (simp only: e)
  also have "\<dots> = 2 powi floor_log2 x / 2 powi 53"
    by (rule power_int_diff) simp
  also have "\<dots> \<le> x / 2 powi 53"
    using floor_log2_bounds [OF x] by (intro divide_right_mono) simp_all
  finally show ?thesis by simp
qed

lemma powi2_split: "(2::rat) powi (k + int n) = 2 ^ n * 2 powi k"
proof -
  have "(2::rat) powi (k + int n) = 2 powi k * 2 powi (int n)"
    by (rule power_int_add) simp
  then show ?thesis by simp
qed

lemma nearest_double_overflow_pos:
  assumes "0 < x"
  shows "2 ^ 1024 \<le> nearest_double x \<longleftrightarrow> 2 ^ 1024 - 2 ^ 970 \<le> x"
proof -
  let ?E = "floor_log2 x"
  let ?e = "max ?E (- 1022)"
  let ?u = "(2::rat) powi (?e - 52)"
  note b = floor_log2_bounds [OF assms]
  have u: "0 < ?u" by simp
  have nd: "nearest_double x = of_int (round_half_even (x / ?u)) * ?u"
    by (rule nearest_double_pos [OF assms])
  consider "1024 \<le> ?E" | "?E \<le> 1022" | "?E = 1023" by linarith
  then show ?thesis
  proof cases
    case 1
    then have e: "?e = ?E" by simp
    have "(2::rat) powi 1024 \<le> 2 powi ?E" using 1 by (rule powi2_mono)
    with b have big: "(2::rat) ^ 1024 \<le> x" by simp
    have "(?E - 52) + int 52 = ?E" by simp
    with powi2_split [of "?E - 52" 52]
    have split: "(2::rat) powi ?E = 2 ^ 52 * 2 powi (?E - 52)" by (simp only:)
    have "of_int (2 ^ 52) = (2::rat) powi ?E / 2 powi (?E - 52)"
      by (simp add: split)
    also have "\<dots> \<le> x / 2 powi (?E - 52)"
      using b by (intro divide_right_mono) simp_all
    finally have "2 ^ 52 \<le> round_half_even (x / 2 powi (?E - 52))"
      by (rule round_half_even_ge)
    then have "(of_int (2 ^ 52) :: rat) \<le> of_int (round_half_even (x / 2 powi (?E - 52)))"
      by (simp only: of_int_le_iff)
    then have "of_int (2 ^ 52) * (2::rat) powi (?E - 52)
               \<le> of_int (round_half_even (x / 2 powi (?E - 52))) * 2 powi (?E - 52)"
      by (rule mult_right_mono) simp
    then have "2 powi ?E \<le> nearest_double x"
      by (simp add: nd e split)
    with \<open>(2::rat) powi 1024 \<le> 2 powi ?E\<close> have "(2::rat) ^ 1024 \<le> nearest_double x" by simp
    moreover from big have "(2::rat) ^ 1024 - 2 ^ 970 \<le> x" by simp
    ultimately show ?thesis by simp
  next
    case 2
    then have e_le: "?e \<le> 1022" and E_le: "?E \<le> ?e" by simp_all
    have "x < 2 powi (?E + 1)" using b by simp
    also have "\<dots> \<le> 2 powi 1023" using 2 by (intro powi2_mono) simp
    finally have small: "x < 2 ^ 1023" by simp
    have "(?e - 52) + int 53 = ?e + 1" by simp
    with powi2_split [of "?e - 52" 53]
    have split: "(2::rat) powi (?e + 1) = 2 ^ 53 * ?u" by (simp only:)
    have "x \<le> 2 powi (?e + 1)"
      using b powi2_mono [of "?E + 1" "?e + 1"] E_le by simp
    then have "x / ?u \<le> 2 powi (?e + 1) / ?u"
      by (intro divide_right_mono) simp_all
    also have "\<dots> = of_int (2 ^ 53)" by (simp add: split)
    finally have "round_half_even (x / ?u) \<le> 2 ^ 53" by (rule round_half_even_le)
    then have "(of_int (round_half_even (x / ?u)) :: rat) \<le> of_int (2 ^ 53)"
      by (simp only: of_int_le_iff)
    then have "of_int (round_half_even (x / ?u)) * ?u \<le> of_int (2 ^ 53) * ?u"
      by (rule mult_right_mono) simp
    then have "nearest_double x \<le> 2 powi (?e + 1)" by (simp add: nd split)
    also have "\<dots> \<le> 2 powi 1023" using e_le by (intro powi2_mono) simp
    finally have "nearest_double x \<le> 2 ^ 1023" by simp
    then have "\<not> 2 ^ 1024 \<le> nearest_double x" by simp
    moreover from small have "\<not> 2 ^ 1024 - 2 ^ 970 \<le> x" by simp
    ultimately show ?thesis by simp
  next
    case 3
    then have e: "?e = 1023" by simp
    have uval: "?u = 2 ^ 971" by (simp add: e)
    from b 3 have lt: "x < 2 ^ 1024" by simp
    then have q: "x / 2 ^ 971 < of_int (2 ^ 53)" by (simp add: divide_less_eq)
    have "2 ^ 1024 \<le> nearest_double x
          \<longleftrightarrow> (2::rat) ^ 1024 \<le> of_int (round_half_even (x / 2 ^ 971)) * 2 ^ 971"
      by (simp only: nd uval)
    also have "\<dots> \<longleftrightarrow> (of_int (2 ^ 53) :: rat) \<le> of_int (round_half_even (x / 2 ^ 971))"
      by (simp add: field_simps)
    also have "\<dots> \<longleftrightarrow> 2 ^ 53 \<le> round_half_even (x / 2 ^ 971)"
      by (simp only: of_int_le_iff)
    also have "\<dots> \<longleftrightarrow> of_int (2 ^ 53) - 1 / 2 \<le> x / 2 ^ 971"
      using q by (intro round_half_even_reaches_even) simp_all
    also have "\<dots> \<longleftrightarrow> 2 ^ 1024 - 2 ^ 970 \<le> x"
      by (simp add: field_simps)
    finally show ?thesis .
  qed
qed


lemma nearest_double_sgn: "nearest_double x = sgn x * nearest_double \<bar>x\<bar>"
proof (cases "x = 0")
  case True
  then show ?thesis by (simp add: nearest_double_def)
next
  case False
  then show ?thesis by (simp add: nearest_double_def Let_def)
qed

lemma nearest_double_of_int_pos:
  assumes "0 < n" and "n \<le> 2 ^ 53"
  shows "nearest_double (of_int n) = of_int n"
proof -
  let ?x = "of_int n :: rat"
  let ?E = "floor_log2 ?x"
  from assms(1) have x: "0 < ?x" by simp
  from assms(1) have "(2::rat) powi 0 \<le> ?x" by simp
  then have E0: "0 \<le> ?E" by (rule floor_log2_ge)
  then have e: "max ?E (- 1022) = ?E" by simp
  from assms(2) have "?x \<le> of_int (2 ^ 53)" by (simp only: of_int_le_iff)
  then have x53: "?x \<le> 2 ^ 53" by simp
  then have "?x < 2 powi 54" by simp
  with x have "?E < 54" by (rule floor_log2_less)
  then consider "?E \<le> 52" | "?E = 53" by linarith
  then show ?thesis
  proof cases
    case 1
    define j where "j = nat (52 - ?E)"
    from 1 have "(?E - 52) + int j = 0" by (simp add: j_def)
    with powi2_split [of "?E - 52" j] have "(2::rat) ^ j * 2 powi (?E - 52) = 1"
      by simp
    then have u: "(2::rat) powi (?E - 52) = 1 / 2 ^ j"
      by (simp add: field_simps)
    have "?x / (1 / 2 ^ j) = of_int (n * 2 ^ j)" by simp
    then have "round_half_even (?x / (1 / 2 ^ j)) = n * 2 ^ j"
      by (simp only: round_half_even_of_int)
    then show ?thesis
      by (simp add: nearest_double_pos [OF x] e u)
  next
    case 2
    from floor_log2_bounds [OF x] 2 have "2 ^ 53 \<le> ?x" by simp
    with x53 have xv: "?x = 2 ^ 53" by simp
    have "?x / 2 = of_int (2 ^ 52)" by (simp add: xv)
    then have r: "round_half_even (?x / 2) = 2 ^ 52"
      by (simp only: round_half_even_of_int)
    have u: "(2::rat) powi (?E - 52) = 2" by (simp add: 2)
    have "nearest_double ?x
          = of_int (round_half_even (?x / 2 powi (?E - 52))) * 2 powi (?E - 52)"
      using nearest_double_pos [OF x] by (simp only: e)
    then have "nearest_double ?x = of_int (2 ^ 52) * 2" by (simp only: u r)
    also have "\<dots> = ?x" by (simp add: xv)
    finally show ?thesis .
  qed
qed

lemma nearest_double_of_int:
  assumes "\<bar>n\<bar> \<le> 2 ^ 53"
  shows "nearest_double (of_int n) = of_int n"
proof (cases "n = 0")
  case True
  then show ?thesis by (simp add: nearest_double_def)
next
  case False
  then have "0 < \<bar>n\<bar>" by simp
  from nearest_double_of_int_pos [OF this assms]
  have "nearest_double \<bar>of_int n\<bar> = \<bar>of_int n\<bar>" by simp
  with nearest_double_sgn [of "of_int n"] show ?thesis
    by (simp add: sgn_mult_abs)
qed

section \<open>The division and the metrics\<close>

lemma int_truediv_eq:
  assumes "b \<noteq> 0"
  shows "int_truediv a b =
           (if 2 ^ 1024 - 2 ^ 970 \<le> \<bar>of_int a / of_int b :: rat\<bar> then Inl OverflowError
            else Inr (nearest_double (of_int a / of_int b)))"
proof (cases "of_int a / of_int b = (0::rat)")
  case True
  with assms show ?thesis by (simp add: int_truediv_def nearest_double_def)
next
  case False
  let ?x = "of_int a / of_int b :: rat"
  from False have "0 < \<bar>?x\<bar>" by simp
  from nearest_double_overflow_pos [OF this]
  have "2 ^ 1024 \<le> \<bar>nearest_double ?x\<bar> \<longleftrightarrow> 2 ^ 1024 - 2 ^ 970 \<le> \<bar>?x\<bar>"
    by (simp only: nearest_double_abs)
  with assms show ?thesis by (simp add: int_truediv_def Let_def)
qed

lemma nearest_double_relative_error:
  assumes "1 / 2 ^ 1022 \<le> \<bar>x\<bar>"
  shows "\<bar>nearest_double x - x\<bar> \<le> \<bar>x\<bar> / 2 ^ 53"
proof -
  have "(2::rat) powi (- 1022) = inverse (2 powi 1022)"
    by (rule power_int_minus)
  also have "\<dots> = 1 / 2 ^ 1022"
    by (simp add: inverse_eq_divide)
  finally have "(2::rat) powi (- 1022) = 1 / 2 ^ 1022" .
  with assms have "2 powi (- 1022) \<le> \<bar>x\<bar>" by (simp only:)
  from nearest_double_relative_error_pos [OF this] show ?thesis
    by (simp only: nearest_double_diff_abs [of x])
qed


lemma turnaround_of_one_large_job:
  assumes "2 ^ 1024 \<le> b"
  shows "list_all (\<lambda>p. start_time p \<noteq> None \<and> completion_time p \<noteq> None)
           (FCFS_run [Process i 0 b None])"
    and "FCFS_run [Process i 0 b None] \<noteq> []"
    and "calculate_average_turnaround_time (FCFS_run [Process i 0 b None]) = Inl OverflowError"
proof -
  have run: "FCFS_run [Process i 0 b None]
     = [\<lparr>process_id = i, arrival_time = 0, burst_time = b, priority = None,
         start_time = Some 0, completion_time = Some b\<rparr>]"
    by (simp add: FCFS_run_def fcfs_loop_Cons dispatch_eq Process_def)
  show "list_all (\<lambda>p. start_time p \<noteq> None \<and> completion_time p \<noteq> None)
           (FCFS_run [Process i 0 b None])"
    by (simp add: run)
  show "FCFS_run [Process i 0 b None] \<noteq> []"
    by (simp add: run)
  from assms have "(of_int (2 ^ 1024) :: rat) \<le> of_int b" by (simp only: of_int_le_iff)
  then have "(2::rat) ^ 1024 \<le> of_int b" by simp
  moreover have "(2::rat) ^ 1024 - 2 ^ 970 \<le> 2 ^ 1024" by simp
  ultimately have "(2::rat) ^ 1024 - 2 ^ 970 \<le> of_int b" by (rule order_trans [rotated])
  moreover from assms have "0 \<le> b" by (rule order_trans [rotated]) simp
  ultimately have big: "(2::rat) ^ 1024 - 2 ^ 970 \<le> \<bar>of_int b / of_int 1\<bar>" by simp
  have "calculate_average_turnaround_time (FCFS_run [Process i 0 b None]) = int_truediv b 1"
    by (simp add: run calculate_average_turnaround_time_def)
  also have "\<dots> = Inl OverflowError"
    using int_truediv_eq [of 1 b] big by (simp only: if_True)
  finally show "calculate_average_turnaround_time (FCFS_run [Process i 0 b None])
                = Inl OverflowError" .
qed

lemma pow_10_400_large: "(2::int) ^ 1024 \<le> 10 ^ 400"
proof -
  have "(2::int) ^ 1024 \<le> 2 ^ (3 * 400)" by (rule power_increasing) simp_all
  also have "\<dots> = (2 ^ 3) ^ 400" by (rule power_mult)
  also have "\<dots> \<le> 10 ^ 400" by (rule power_mono) simp_all
  finally show ?thesis .
qed

chapter \<open>The claims\<close>

section \<open>C1: the returned sequence and the order of the three times\<close>

text \<open>
  Claim C1 says that for every policy, on valid input, the returned sequence is a
  permutation of the input jobs (same identifiers, same count), and that every returned
  job has completion time \<open>\<ge>\<close> start time \<open>\<ge>\<close> arrival time. The first part fails for
  SRTF: after each completion it subtracts the served time from the jobs that have
  arrived and keeps only those with a positive burst time, so two jobs arriving at 0 with
  burst time 2 give a sequence with one job.
\<close>

theorem SRTF_drops_jobs:
  "list_all (\<lambda>p. 0 \<le> arrival_time p \<and> 0 < burst_time p)
     [Process 1 0 2 None, Process 2 0 2 None] \<and>
   SRTF_run [Process 1 0 2 None, Process 2 0 2 None]
     = [\<lparr>process_id = 1, arrival_time = 0, burst_time = 2, priority = None,
         start_time = Some 0, completion_time = Some 2\<rparr>] \<and>
   mset (map process_id (SRTF_run [Process 1 0 2 None, Process 2 0 2 None]))
     \<noteq> mset (map process_id [Process 1 0 2 None, Process 2 0 2 None]) \<and>
   length (SRTF_run [Process 1 0 2 None, Process 2 0 2 None])
     \<noteq> length [Process 1 0 2 None, Process 2 0 2 None]"
proof -
  have run: "SRTF_run [Process 1 0 2 None, Process 2 0 2 None]
     = [\<lparr>process_id = 1, arrival_time = 0, burst_time = 2, priority = None,
         start_time = Some 0, completion_time = Some 2\<rparr>]"
    by (simp add: SRTF_run_def init_def Process_def srtf_loop.simps srtf_step_def
        srtf_discount_def sjf_key_def dispatch_eq)
  show ?thesis
    by (simp add: run) (simp add: Process_def)
qed

text \<open>
  Claim C1 as amended. On valid input (arrival times \<open>\<ge> 0\<close>, burst times \<open>> 0\<close>): FCFS and
  SJF return a sequence with the same identifiers as the input, each as often, and of the
  same length; so does Priority when every job has a priority, and RoundRobin when the
  quantum is positive. SRTF returns a sequence whose identifiers are among those of the
  input, none more often than there, so it is at most as long. Under all five policies
  every returned job has both times set with
  arrival time \<open>\<le>\<close> start time \<open>\<le>\<close> completion time.
\<close>

theorem run_returns_input_jobs_well_timed:
  assumes "\<forall>p \<in> set ps. 0 \<le> arrival_time p \<and> 0 < burst_time p"
  shows "(mset (map process_id (FCFS_run ps)) = mset (map process_id ps) \<and>
          length (FCFS_run ps) = length ps \<and>
          (\<forall>p \<in> set (FCFS_run ps). timed_ok p)) \<and>
         (mset (map process_id (SJF_run ps)) = mset (map process_id ps) \<and>
          length (SJF_run ps) = length ps \<and>
          (\<forall>p \<in> set (SJF_run ps). timed_ok p)) \<and>
         ((\<forall>p \<in> set ps. priority p \<noteq> None) \<longrightarrow>
            (\<exists>out. Priority_run ps = Inr out \<and>
               mset (map process_id out) = mset (map process_id ps) \<and>
               length out = length ps \<and>
               (\<forall>p \<in> set out. timed_ok p))) \<and>
         (0 < q \<longrightarrow>
            (\<exists>out. RoundRobin_run q ps = Some out \<and>
               mset (map process_id out) = mset (map process_id ps) \<and>
               length out = length ps \<and>
               (\<forall>p \<in> set out. timed_ok p))) \<and>
         (mset (map process_id (SRTF_run ps)) \<subseteq># mset (map process_id ps) \<and>
          length (SRTF_run ps) \<le> length ps \<and>
          (\<forall>p \<in> set (SRTF_run ps). timed_ok p))"
proof -
  from assms have pos: "\<forall>p \<in> set ps. 0 < burst_time p" by simp
  have fcfs: "mset (map process_id (FCFS_run ps)) = mset (map process_id ps) \<and>
          length (FCFS_run ps) = length ps \<and>
          (\<forall>p \<in> set (FCFS_run ps). timed_ok p)"
  proof (intro conjI ballI)
    show "mset (map process_id (FCFS_run ps)) = mset (map process_id ps)"
      by (simp only: process_id_FCFS_run)
    show "length (FCFS_run ps) = length ps"
      by (simp add: FCFS_run_def length_fcfs_loop)
    fix p assume "p \<in> set (FCFS_run ps)"
    from timed_ok_member [OF FCFS_run_member [OF this] pos] show "timed_ok p" by simp
  qed
  have sjf: "mset (map process_id (SJF_run ps)) = mset (map process_id ps) \<and>
          length (SJF_run ps) = length ps \<and>
          (\<forall>p \<in> set (SJF_run ps). timed_ok p)"
  proof (intro conjI ballI)
    have "mset (map process_id (SJF_run ps)) = mset (map process_id (sort_key sjf_key ps))"
      by (simp only: SJF_run_eq process_id_FCFS_run)
    then show "mset (map process_id (SJF_run ps)) = mset (map process_id ps)"
      by simp
    show "length (SJF_run ps) = length ps"
      by (simp add: SJF_run_eq FCFS_run_def length_fcfs_loop)
    fix p assume "p \<in> set (SJF_run ps)"
    from timed_ok_member [OF SJF_run_member [OF this] pos] show "timed_ok p" by simp
  qed
  have prio: "\<exists>out. Priority_run ps = Inr out \<and>
               mset (map process_id out) = mset (map process_id ps) \<and>
               length out = length ps \<and>
               (\<forall>p \<in> set out. timed_ok p)"
    if all: "\<forall>p \<in> set ps. priority p \<noteq> None"
  proof -
    let ?out = "FCFS_run (sort_key priority_key ps)"
    from all have run: "Priority_run ps = Inr ?out"
      by (simp add: Priority_run_eq)
    have "mset (map process_id ?out) = mset (map process_id (sort_key priority_key ps))"
      by (simp only: process_id_FCFS_run)
    then have ids: "mset (map process_id ?out) = mset (map process_id ps)"
      by simp
    have len: "length ?out = length ps"
      by (simp add: FCFS_run_def length_fcfs_loop)
    have "timed_ok p" if "p \<in> set ?out" for p
      using timed_ok_member [OF Priority_run_member [OF run that] pos] by simp
    with run ids len show ?thesis by blast
  qed
  have rr: "\<exists>out. RoundRobin_run q ps = Some out \<and>
               mset (map process_id out) = mset (map process_id ps) \<and>
               length out = length ps \<and>
               (\<forall>p \<in> set out. timed_ok p)"
    if "0 < q"
  proof -
    from RoundRobin_run_valid [OF that pos] obtain out
      where "RoundRobin_run q ps = Some out"
        and ids: "mset (map process_id out) = mset (map process_id ps)"
        and "\<forall>p \<in> set out. timed_ok p \<and> 0 < burst_time p \<and> burst_time p \<le> q"
      by blast
    with length_eq_of_ids [OF ids] show ?thesis by blast
  qed
  have srtf: "mset (map process_id (SRTF_run ps)) \<subseteq># mset (map process_id ps) \<and>
          length (SRTF_run ps) \<le> length ps \<and>
          (\<forall>p \<in> set (SRTF_run ps). timed_ok p)"
    using SRTF_run_valid [OF pos] length_le_of_ids [of "SRTF_run ps" ps] by blast
  from fcfs sjf prio rr srtf show ?thesis by blast
qed

theorem run_returns_input_jobs_well_timed_witness:
  "list_all (\<lambda>p. 0 \<le> arrival_time p \<and> 0 < burst_time p \<and> priority p \<noteq> None)
     [Process 1 0 5 (Some 2), Process 2 1 3 (Some 1)] \<and>
   mset (map process_id (FCFS_run [Process 1 0 5 (Some 2), Process 2 1 3 (Some 1)]))
     = {#1, 2#} \<and>
   mset (map process_id (SJF_run [Process 1 0 5 (Some 2), Process 2 1 3 (Some 1)]))
     = {#1, 2#} \<and>
   (\<exists>out. Priority_run [Process 1 0 5 (Some 2), Process 2 1 3 (Some 1)] = Inr out \<and>
      mset (map process_id out) = {#1, 2#} \<and> length out = 2 \<and> list_all timed_ok out) \<and>
   (\<exists>out. RoundRobin_run 2 [Process 1 0 5 (Some 2), Process 2 1 3 (Some 1)] = Some out \<and>
      mset (map process_id out) = {#1, 2#} \<and> length out = 2 \<and> list_all timed_ok out) \<and>
   mset (map process_id (SRTF_run [Process 1 0 5 (Some 2), Process 2 1 3 (Some 1)]))
     \<subseteq># {#1, 2#} \<and>
   list_all timed_ok (SRTF_run [Process 1 0 5 (Some 2), Process 2 1 3 (Some 1)])"
proof -
  let ?ps = "[Process 1 0 5 (Some 2), Process 2 1 3 (Some 1)]"
  have h: "\<forall>p \<in> set ?ps. 0 \<le> arrival_time p \<and> 0 < burst_time p"
    by (simp add: Process_def)
  have hp: "\<forall>p \<in> set ?ps. priority p \<noteq> None"
    by (simp add: Process_def)
  have l: "list_all (\<lambda>p. 0 \<le> arrival_time p \<and> 0 < burst_time p \<and> priority p \<noteq> None) ?ps"
    by (simp add: Process_def)
  have ids: "mset (map process_id ?ps) = {#1, 2#}"
    by (simp add: Process_def)
  have len: "length ?ps = 2" by simp
  note t = run_returns_input_jobs_well_timed [OF h, of 2, unfolded ids len]
  from t have "mset (map process_id (FCFS_run ?ps)) = {#1, 2#}" by blast
  moreover from t have "mset (map process_id (SJF_run ?ps)) = {#1, 2#}" by blast
  moreover from t hp have "\<exists>out. Priority_run ?ps = Inr out \<and>
      mset (map process_id out) = {#1, 2#} \<and> length out = 2 \<and> list_all timed_ok out"
    unfolding list_all_iff by blast
  moreover from t have "\<exists>out. RoundRobin_run 2 ?ps = Some out \<and>
      mset (map process_id out) = {#1, 2#} \<and> length out = 2 \<and> list_all timed_ok out"
    unfolding list_all_iff by simp
  moreover from t have "mset (map process_id (SRTF_run ?ps)) \<subseteq># {#1, 2#}" by blast
  moreover from t have "list_all timed_ok (SRTF_run ?ps)"
    unfolding list_all_iff by blast
  ultimately show ?thesis using l by blast
qed

section \<open>C2: the start time under round robin\<close>

text \<open>
  Claim C2 says that under round robin the start time of a job is the clock value of its
  first dispatch only, so that jobs P1 (arrival 0, burst 5) and P2 (arrival 1, burst 3)
  with quantum 2 end with start times P1 = 0 and P2 = 2 and completion times P2 = 7 and
  P1 = 8. \<open>RoundRobin.run\<close> assigns \<open>start_time\<close> at every dispatch: on this input the
  completion times are 7 and 8, but the start times are those of the last dispatches,
  P2 = 6 and P1 = 7, and the burst times are the lengths of the last slices.
\<close>

theorem RoundRobin_scenario_start_times:
  "RoundRobin_run 2 [Process 1 0 5 None, Process 2 1 3 None] =
     Some [\<lparr>process_id = 2, arrival_time = 1, burst_time = 1, priority = None,
            start_time = Some 6, completion_time = Some 7\<rparr>,
           \<lparr>process_id = 1, arrival_time = 0, burst_time = 1, priority = None,
            start_time = Some 7, completion_time = Some 8\<rparr>]"
  by (simp add: RoundRobin_run_def init_def Process_def rr_loop.simps rr_step_def)

section \<open>C3: the remaining service time\<close>

text \<open>
  Claim C3 says that at every point of every run the remaining service time of every job
  is \<open>\<ge> 0\<close>, that a job is completed if and only if its remaining service time is 0, and
  that RoundRobin sets the remaining service time to 0 at the dispatch that completes the
  job. The record has no field of its own for the remaining time: the preemptive policies
  count \<open>burst_time\<close> down, and no policy writes 0 into it on completion. A job with burst
  time 5 under quantum 2 is completed with \<open>burst_time = 1\<close>, the length of its last slice.
\<close>

theorem RoundRobin_completes_with_positive_burst_time:
  "RoundRobin_run 2 [Process 1 0 5 None]
     = Some [\<lparr>process_id = 1, arrival_time = 0, burst_time = 1, priority = None,
              start_time = Some 4, completion_time = Some 5\<rparr>] \<and>
   (\<exists>out. RoundRobin_run 2 [Process 1 0 5 None] = Some out \<and>
      (\<exists>p \<in> set out. completion_time p \<noteq> None \<and> burst_time p \<noteq> 0))"
proof -
  have run: "RoundRobin_run 2 [Process 1 0 5 None]
     = Some [\<lparr>process_id = 1, arrival_time = 0, burst_time = 1, priority = None,
              start_time = Some 4, completion_time = Some 5\<rparr>]"
    by (simp add: RoundRobin_run_def init_def Process_def rr_loop.simps rr_step_def)
  show ?thesis by (simp add: run)
qed

text \<open>
  Claim C3 as amended. On input whose burst times are all positive, the remaining service
  time (the field \<open>burst_time\<close>) of every job is \<open>\<ge> 0\<close> at every point of every run: at the
  head of every iteration of the RoundRobin and of the SRTF loop it is \<open>> 0\<close> for every job
  still remaining and for every completed job, and between SRTF's subtraction and its
  filter it is \<open>\<ge> 0\<close>; the other policies never write it. Completion is not marked by a
  remaining time of 0: every job that a policy returns keeps a positive \<open>burst_time\<close>,
  which under RoundRobin is the length of the last slice, at most the quantum.
\<close>

theorem remaining_time_stays_positive:
  assumes "\<forall>p \<in> set ps. 0 < burst_time p"
  shows "(\<forall>n. (\<forall>p \<in> set (remaining_processes ((rr_step q ^^ n) (init ps))). 0 < burst_time p) \<and>
              (\<forall>p \<in> set (completed_processes ((rr_step q ^^ n) (init ps))).
                 0 < burst_time p \<and> burst_time p \<le> q)) \<and>
         (0 < q \<longrightarrow>
            (\<exists>out. RoundRobin_run q ps = Some out \<and>
               (\<forall>p \<in> set out. 0 < burst_time p \<and> burst_time p \<le> q))) \<and>
         (\<forall>n. (\<forall>p \<in> set (remaining_processes ((srtf_step ^^ n) (init ps))). 0 < burst_time p) \<and>
              (\<forall>p \<in> set (completed_processes ((srtf_step ^^ n) (init ps))). 0 < burst_time p) \<and>
              (\<forall>p rest.
                 sort_key sjf_key (remaining_processes ((srtf_step ^^ n) (init ps))) = p # rest \<longrightarrow>
                 (\<forall>r \<in> set (srtf_discount
                              (fst (dispatch (current_time ((srtf_step ^^ n) (init ps))) p))
                              (burst_time p) rest).
                    0 \<le> burst_time r))) \<and>
         (\<forall>p \<in> set (SRTF_run ps). 0 < burst_time p) \<and>
         (\<forall>p \<in> set (FCFS_run ps). 0 < burst_time p) \<and>
         (\<forall>p \<in> set (SJF_run ps). 0 < burst_time p) \<and>
         (\<forall>out. Priority_run ps = Inr out \<longrightarrow> (\<forall>p \<in> set out. 0 < burst_time p))"
proof (intro conjI allI impI ballI)
  fix n p assume "p \<in> set (remaining_processes ((rr_step q ^^ n) (init ps)))"
  with rr_iterate_bursts [OF assms, where q = q and n = n] show "0 < burst_time p" by blast
next
  fix n p assume "p \<in> set (completed_processes ((rr_step q ^^ n) (init ps)))"
  with rr_iterate_bursts [OF assms, where q = q and n = n]
  show "0 < burst_time p" and "burst_time p \<le> q" by blast+
next
  assume "0 < q"
  from RoundRobin_run_valid [OF this assms]
  show "\<exists>out. RoundRobin_run q ps = Some out \<and>
               (\<forall>p \<in> set out. 0 < burst_time p \<and> burst_time p \<le> q)"
    by blast
next
  fix n p assume "p \<in> set (remaining_processes ((srtf_step ^^ n) (init ps)))"
  with srtf_iterate_bursts [OF assms, where n = n] show "0 < burst_time p" by blast
next
  fix n p assume "p \<in> set (completed_processes ((srtf_step ^^ n) (init ps)))"
  with srtf_iterate_bursts [OF assms, where n = n] show "0 < burst_time p" by blast
next
  fix n p rest r
  assume srt: "sort_key sjf_key (remaining_processes ((srtf_step ^^ n) (init ps))) = p # rest"
    and r: "r \<in> set (srtf_discount
                      (fst (dispatch (current_time ((srtf_step ^^ n) (init ps))) p))
                      (burst_time p) rest)"
  from srtf_iterate_bursts [OF assms, where n = n]
  have "\<forall>x \<in> set (remaining_processes ((srtf_step ^^ n) (init ps))). 0 < burst_time x"
    by blast
  from srtf_discount_nonneg [OF srt this] r show "0 \<le> burst_time r" by blast
next
  fix p assume "p \<in> set (SRTF_run ps)"
  with SRTF_run_valid [OF assms] show "0 < burst_time p" by blast
next
  fix p assume "p \<in> set (FCFS_run ps)"
  from timed_ok_member [OF FCFS_run_member [OF this] assms] show "0 < burst_time p" by simp
next
  fix p assume "p \<in> set (SJF_run ps)"
  from timed_ok_member [OF SJF_run_member [OF this] assms] show "0 < burst_time p" by simp
next
  fix out p assume "Priority_run ps = Inr out" and "p \<in> set out"
  from timed_ok_member [OF Priority_run_member [OF this] assms] show "0 < burst_time p" by simp
qed

theorem remaining_time_stays_positive_witness:
  "list_all (\<lambda>p. 0 < burst_time p) [Process 1 0 5 None, Process 2 1 3 None] \<and>
   map burst_time
     (remaining_processes ((rr_step 2 ^^ 3) (init [Process 1 0 5 None, Process 2 1 3 None])))
     = [1, 1] \<and>
   list_all (\<lambda>p. 0 < burst_time p)
     (remaining_processes ((rr_step 2 ^^ 3) (init [Process 1 0 5 None, Process 2 1 3 None]))) \<and>
   (\<exists>out. RoundRobin_run 2 [Process 1 0 5 None, Process 2 1 3 None] = Some out \<and>
      list_all (\<lambda>p. 0 < burst_time p \<and> burst_time p \<le> 2) out) \<and>
   list_all (\<lambda>p. 0 < burst_time p) (SRTF_run [Process 1 0 5 None, Process 2 1 3 None])"
proof -
  let ?ps = "[Process 1 0 5 None, Process 2 1 3 None]"
  have h: "\<forall>p \<in> set ?ps. 0 < burst_time p"
    by (simp add: Process_def)
  have l: "list_all (\<lambda>p. 0 < burst_time p) ?ps"
    by (simp add: Process_def)
  have three: "map burst_time (remaining_processes ((rr_step 2 ^^ 3) (init ?ps))) = [1, 1]"
    by (simp add: numeral_nat init_def Process_def rr_step_def)
  note t = remaining_time_stays_positive [OF h, of 2]
  from t have "list_all (\<lambda>p. 0 < burst_time p)
     (remaining_processes ((rr_step 2 ^^ 3) (init ?ps)))"
    unfolding list_all_iff by blast
  moreover from t have "\<exists>out. RoundRobin_run 2 ?ps = Some out \<and>
      list_all (\<lambda>p. 0 < burst_time p \<and> burst_time p \<le> 2) out"
    unfolding list_all_iff by simp
  moreover from t have "list_all (\<lambda>p. 0 < burst_time p) (SRTF_run ?ps)"
    unfolding list_all_iff by blast
  ultimately show ?thesis using l three by blast
qed

section \<open>C4: completion time under the non-preemptive policies\<close>

text \<open>
  Claim C4. Every job in the sequence returned by FCFS, by SJF, or by Priority (when its
  sort does not raise) is one of the input jobs with the two time fields written, and its
  completion time is exactly its start time plus the service time the input job came with.
\<close>

theorem nonpreemptive_completion_time:
  "(\<forall>p \<in> set (FCFS_run ps). \<exists>p0 \<in> set ps. \<exists>s.
      p = p0\<lparr>start_time := Some s, completion_time := Some (s + burst_time p0)\<rparr>) \<and>
   (\<forall>p \<in> set (SJF_run ps). \<exists>p0 \<in> set ps. \<exists>s.
      p = p0\<lparr>start_time := Some s, completion_time := Some (s + burst_time p0)\<rparr>) \<and>
   (\<forall>out. Priority_run ps = Inr out \<longrightarrow>
      (\<forall>p \<in> set out. \<exists>p0 \<in> set ps. \<exists>s.
         p = p0\<lparr>start_time := Some s, completion_time := Some (s + burst_time p0)\<rparr>))"
proof (intro conjI ballI allI impI)
  fix p assume "p \<in> set (FCFS_run ps)"
  from FCFS_run_member [OF this]
  show "\<exists>p0 \<in> set ps. \<exists>s.
      p = p0\<lparr>start_time := Some s, completion_time := Some (s + burst_time p0)\<rparr>"
    by blast
next
  fix p assume "p \<in> set (SJF_run ps)"
  from SJF_run_member [OF this]
  show "\<exists>p0 \<in> set ps. \<exists>s.
      p = p0\<lparr>start_time := Some s, completion_time := Some (s + burst_time p0)\<rparr>"
    by blast
next
  fix out p assume "Priority_run ps = Inr out" and "p \<in> set out"
  from Priority_run_member [OF this]
  show "\<exists>p0 \<in> set ps. \<exists>s.
      p = p0\<lparr>start_time := Some s, completion_time := Some (s + burst_time p0)\<rparr>"
    by blast
qed

theorem nonpreemptive_completion_time_witness:
  "FCFS_run [Process 1 0 5 (Some 2), Process 2 1 3 (Some 1)] ! 1
     = (Process 2 1 3 (Some 1))\<lparr>start_time := Some 5, completion_time := Some (5 + 3)\<rparr> \<and>
   SJF_run [Process 1 0 5 (Some 2), Process 2 1 3 (Some 1)] ! 1
     = (Process 1 0 5 (Some 2))\<lparr>start_time := Some 4, completion_time := Some (4 + 5)\<rparr> \<and>
   (\<exists>out. Priority_run [Process 1 0 5 (Some 2), Process 2 1 3 (Some 1)] = Inr out \<and>
      out ! 1
        = (Process 1 0 5 (Some 2))\<lparr>start_time := Some 4, completion_time := Some (4 + 5)\<rparr>) \<and>
   (\<exists>p0 \<in> set [Process 1 0 5 (Some 2), Process 2 1 3 (Some 1)]. \<exists>s.
      FCFS_run [Process 1 0 5 (Some 2), Process 2 1 3 (Some 1)] ! 1
        = p0\<lparr>start_time := Some s, completion_time := Some (s + burst_time p0)\<rparr>) \<and>
   (\<exists>p0 \<in> set [Process 1 0 5 (Some 2), Process 2 1 3 (Some 1)]. \<exists>s.
      SJF_run [Process 1 0 5 (Some 2), Process 2 1 3 (Some 1)] ! 1
        = p0\<lparr>start_time := Some s, completion_time := Some (s + burst_time p0)\<rparr>)"
proof -
  let ?ps = "[Process 1 0 5 (Some 2), Process 2 1 3 (Some 1)]"
  note t = nonpreemptive_completion_time [of ?ps]
  have f: "FCFS_run ?ps ! 1
     = (Process 2 1 3 (Some 1))\<lparr>start_time := Some 5, completion_time := Some (5 + 3)\<rparr>"
    by (simp add: FCFS_run_def fcfs_loop_Cons dispatch_eq Process_def)
  have j: "SJF_run ?ps ! 1
     = (Process 1 0 5 (Some 2))\<lparr>start_time := Some 4, completion_time := Some (4 + 5)\<rparr>"
    by (simp add: SJF_run_eq FCFS_run_def fcfs_loop_Cons dispatch_eq Process_def sjf_key_def)
  have pr: "Priority_run ?ps
     = Inr [(Process 2 1 3 (Some 1))\<lparr>start_time := Some 1, completion_time := Some 4\<rparr>,
            (Process 1 0 5 (Some 2))\<lparr>start_time := Some 4, completion_time := Some (4 + 5)\<rparr>]"
    by (simp add: Priority_run_eq FCFS_run_def fcfs_loop_Cons dispatch_eq Process_def
        priority_key_def)
  have "FCFS_run ?ps ! 1 \<in> set (FCFS_run ?ps)"
    by (rule nth_mem) (simp add: FCFS_run_def length_fcfs_loop)
  with t have f': "\<exists>p0 \<in> set ?ps. \<exists>s.
      FCFS_run ?ps ! 1 = p0\<lparr>start_time := Some s, completion_time := Some (s + burst_time p0)\<rparr>"
    by blast
  have "SJF_run ?ps ! 1 \<in> set (SJF_run ?ps)"
    by (rule nth_mem) (simp add: SJF_run_eq FCFS_run_def length_fcfs_loop)
  with t have j': "\<exists>p0 \<in> set ?ps. \<exists>s.
      SJF_run ?ps ! 1 = p0\<lparr>start_time := Some s, completion_time := Some (s + burst_time p0)\<rparr>"
    by blast
  from f j pr f' j' show ?thesis by simp
qed

section \<open>C5: what shortest job first selects\<close>

text \<open>
  Claim C5. In every state of the SJF loop with jobs remaining, whatever the clock, the
  iteration dispatches a remaining job whose service time is smallest among all the
  remaining jobs, a tie being broken by the smaller arrival time; whether a job has
  arrived by the current clock value plays no part. The job is dispatched to completion
  from the current clock and removed from the remaining jobs. On P1 (arrival 0, burst 5),
  P2 (arrival 1, burst 3), P3 (arrival 2, burst 8) the result is P2 running from 1 to 4,
  P1 from 4 to 9 and P3 from 9 to 17.
\<close>

theorem SJF_selection:
  "(remaining_processes s \<noteq> [] \<longrightarrow>
      (\<exists>p \<in> set (remaining_processes s).
         (\<forall>r \<in> set (remaining_processes s).
            burst_time p < burst_time r \<or>
            (burst_time p = burst_time r \<and> arrival_time p \<le> arrival_time r)) \<and>
         completed_processes (sjf_step s)
           = completed_processes s @ [snd (dispatch (current_time s) p)] \<and>
         current_time (sjf_step s) = fst (dispatch (current_time s) p) \<and>
         mset (remaining_processes (sjf_step s)) = mset (remaining_processes s) - {#p#})) \<and>
   map (\<lambda>p. (process_id p, start_time p, completion_time p))
     (SJF_run [Process 1 0 5 None, Process 2 1 3 None, Process 3 2 8 None])
     = [(2, Some 1, Some 4), (1, Some 4, Some 9), (3, Some 9, Some 17)]"
proof (intro conjI impI)
  assume ne: "remaining_processes s \<noteq> []"
  then obtain p rest where srt: "sort_key sjf_key (remaining_processes s) = p # rest"
    by (rule sort_key_nonempty)
  have mem: "p \<in> set (remaining_processes s)"
    using sort_key_Cons_set [OF srt] by simp
  have least: "burst_time p < burst_time r \<or>
               (burst_time p = burst_time r \<and> arrival_time p \<le> arrival_time r)"
    if "r \<in> set (remaining_processes s)" for r
  proof -
    have "sjf_key p \<le> sjf_key r" using srt that by (rule sort_key_Cons_least)
    then show ?thesis by (auto simp: sjf_key_def less_eq_prod_def)
  qed
  have rem: "mset (remaining_processes (sjf_step s)) = mset (remaining_processes s) - {#p#}"
    by (simp add: sjf_step_Cons [OF srt] sort_key_Cons_mset [OF srt])
  show "\<exists>p \<in> set (remaining_processes s).
         (\<forall>r \<in> set (remaining_processes s).
            burst_time p < burst_time r \<or>
            (burst_time p = burst_time r \<and> arrival_time p \<le> arrival_time r)) \<and>
         completed_processes (sjf_step s)
           = completed_processes s @ [snd (dispatch (current_time s) p)] \<and>
         current_time (sjf_step s) = fst (dispatch (current_time s) p) \<and>
         mset (remaining_processes (sjf_step s)) = mset (remaining_processes s) - {#p#}"
    using mem least rem by (intro bexI [of _ p]) (simp_all add: sjf_step_Cons [OF srt])
next
  show "map (\<lambda>p. (process_id p, start_time p, completion_time p))
     (SJF_run [Process 1 0 5 None, Process 2 1 3 None, Process 3 2 8 None])
     = [(2, Some 1, Some 4), (1, Some 4, Some 9), (3, Some 9, Some 17)]"
    by (simp add: SJF_run_eq FCFS_run_def fcfs_loop_Cons dispatch_eq Process_def sjf_key_def)
qed

theorem SJF_selection_witness:
  "remaining_processes (init [Process 1 0 5 None, Process 2 1 3 None]) \<noteq> [] \<and>
   (\<exists>p \<in> set [Process 1 0 5 None, Process 2 1 3 None].
      burst_time p = 3 \<and> arrival_time p = 1 \<and>
      completed_processes (sjf_step (init [Process 1 0 5 None, Process 2 1 3 None]))
        = [snd (dispatch 0 p)])"
proof -
  let ?ps = "[Process 1 0 5 None, Process 2 1 3 None]"
  have ne: "remaining_processes (init ?ps) \<noteq> []"
    by (simp add: init_def)
  from SJF_selection [of "init ?ps"] ne
  obtain p where p: "p \<in> set (remaining_processes (init ?ps))"
    and least: "\<forall>r \<in> set (remaining_processes (init ?ps)).
            burst_time p < burst_time r \<or>
            (burst_time p = burst_time r \<and> arrival_time p \<le> arrival_time r)"
    and c: "completed_processes (sjf_step (init ?ps))
           = completed_processes (init ?ps) @ [snd (dispatch (current_time (init ?ps)) p)]"
    by blast
  from p least have "p = Process 2 1 3 None"
    by (auto simp: init_def Process_def)
  with c have "completed_processes (sjf_step (init ?ps)) = [snd (dispatch 0 p)]"
    by (simp add: init_def)
  with \<open>p = Process 2 1 3 None\<close> ne show ?thesis
    by (auto simp: Process_def)
qed

section \<open>C6: invalid input\<close>

text \<open>
  Claim C6 says that every invalid input (a negative arrival time, a service time that is
  not positive, a quantum that is not positive, a job without a priority under Priority)
  is rejected with an error before any timing is produced. No policy checks its input:
  FCFS times a job with arrival time -3 and burst time -2 (it completes before it starts),
  Priority times a single job that has no priority, RoundRobin with quantum 0 times a job
  with burst time 0, and with quantum 0 and a job with burst time 5 it does not return at
  all.
\<close>

theorem invalid_input_is_scheduled:
  "FCFS_run [Process 1 (- 3) (- 2) None]
     = [\<lparr>process_id = 1, arrival_time = - 3, burst_time = - 2, priority = None,
         start_time = Some 0, completion_time = Some (- 2)\<rparr>] \<and>
   Priority_run [Process 1 0 5 None]
     = Inr [\<lparr>process_id = 1, arrival_time = 0, burst_time = 5, priority = None,
             start_time = Some 0, completion_time = Some 5\<rparr>] \<and>
   RoundRobin_run 0 [Process 1 0 0 None]
     = Some [\<lparr>process_id = 1, arrival_time = 0, burst_time = 0, priority = None,
              start_time = Some 0, completion_time = Some 0\<rparr>] \<and>
   RoundRobin_run 0 [Process 1 0 5 None] = None"
proof -
  have "RoundRobin_run 0 [Process 1 0 5 None] = None"
    unfolding RoundRobin_run_def
    by (rule rr_loop_diverges) (simp_all add: init_def Process_def)
  moreover have "RoundRobin_run 0 [Process 1 0 0 None]
     = Some [\<lparr>process_id = 1, arrival_time = 0, burst_time = 0, priority = None,
              start_time = Some 0, completion_time = Some 0\<rparr>]"
    by (simp add: RoundRobin_run_def init_def Process_def rr_loop.simps rr_step_def)
  moreover have "Priority_run [Process 1 0 5 None]
     = Inr [\<lparr>process_id = 1, arrival_time = 0, burst_time = 5, priority = None,
             start_time = Some 0, completion_time = Some 5\<rparr>]"
    by (simp add: Priority_run_eq FCFS_run_def fcfs_loop_Cons dispatch_eq Process_def)
  moreover have "FCFS_run [Process 1 (- 3) (- 2) None]
     = [\<lparr>process_id = 1, arrival_time = - 3, burst_time = - 2, priority = None,
         start_time = Some 0, completion_time = Some (- 2)\<rparr>]"
    by (simp add: FCFS_run_def fcfs_loop_Cons dispatch_eq Process_def)
  ultimately show ?thesis by simp
qed

text \<open>
  Claim C6 as amended. No policy validates its input. FCFS and SJF return a timed job for
  every input job, whatever the arrival and burst times; SRTF returns timed jobs, at least
  one when the input is not empty. Priority raises exactly when the input has both a job
  without and a job with a priority, and then at the sort of the first iteration, before
  any time is written; otherwise, also when no job has a priority, it returns the jobs
  timed in the order of the stable sort by (priority, arrival time). RoundRobin with a
  quantum that is not positive raises nothing: it returns what FCFS returns when no burst
  time exceeds the quantum, and does not return otherwise.
\<close>

theorem runs_do_not_validate:
  "(length (FCFS_run ps) = length ps \<and>
    (\<forall>p \<in> set (FCFS_run ps). start_time p \<noteq> None \<and> completion_time p \<noteq> None)) \<and>
   (length (SJF_run ps) = length ps \<and>
    (\<forall>p \<in> set (SJF_run ps). start_time p \<noteq> None \<and> completion_time p \<noteq> None)) \<and>
   ((ps \<noteq> [] \<longrightarrow> SRTF_run ps \<noteq> []) \<and>
    (\<forall>p \<in> set (SRTF_run ps). start_time p \<noteq> None \<and> completion_time p \<noteq> None)) \<and>
   Priority_run ps =
     (if (\<exists>x \<in> set ps. priority x = None) \<and> (\<exists>x \<in> set ps. priority x \<noteq> None)
      then Inl TypeError
      else Inr (FCFS_run (sort_key priority_key ps))) \<and>
   ((\<exists>x \<in> set ps. priority x = None) \<and> (\<exists>x \<in> set ps. priority x \<noteq> None) \<longrightarrow>
      priority_step (init ps) = Inl TypeError) \<and>
   (q \<le> 0 \<longrightarrow>
      RoundRobin_run q ps =
        (if \<exists>p \<in> set ps. q < burst_time p then None else Some (FCFS_run ps)))"
proof (intro conjI impI ballI)
  show "length (FCFS_run ps) = length ps"
    by (simp add: FCFS_run_def length_fcfs_loop)
  show "length (SJF_run ps) = length ps"
    by (simp add: SJF_run_eq FCFS_run_def length_fcfs_loop)
  show "Priority_run ps =
     (if (\<exists>x \<in> set ps. priority x = None) \<and> (\<exists>x \<in> set ps. priority x \<noteq> None)
      then Inl TypeError
      else Inr (FCFS_run (sort_key priority_key ps)))"
    by (rule Priority_run_eq)
next
  fix p assume "p \<in> set (FCFS_run ps)"
  from FCFS_run_times_set [OF this]
  show "start_time p \<noteq> None" and "completion_time p \<noteq> None" by simp_all
next
  fix p assume "p \<in> set (SJF_run ps)"
  then have "p \<in> set (FCFS_run (sort_key sjf_key ps))" by (simp only: SJF_run_eq)
  from FCFS_run_times_set [OF this]
  show "start_time p \<noteq> None" and "completion_time p \<noteq> None" by simp_all
next
  assume "ps \<noteq> []"
  then show "SRTF_run ps \<noteq> []"
    unfolding SRTF_run_def by (intro srtf_loop_nonempty) (simp add: init_def)
next
  fix p assume "p \<in> set (SRTF_run ps)"
  from SRTF_run_times_set [OF this]
  show "start_time p \<noteq> None" and "completion_time p \<noteq> None" by simp_all
next
  assume "(\<exists>x \<in> set ps. priority x = None) \<and> (\<exists>x \<in> set ps. priority x \<noteq> None)"
  then have "priority_sort (remaining_processes (init ps)) = Inl TypeError"
    by (simp add: priority_sort_def init_def)
  then show "priority_step (init ps) = Inl TypeError"
    by (simp add: priority_step_def)
next
  assume q: "q \<le> 0"
  show "RoundRobin_run q ps =
        (if \<exists>p \<in> set ps. q < burst_time p then None else Some (FCFS_run ps))"
  proof (cases "\<exists>p \<in> set ps. q < burst_time p")
    case True
    then have "\<exists>p \<in> set (remaining_processes (init ps)). q < burst_time p"
      by (simp add: init_def)
    from rr_loop_diverges [OF q this] True show ?thesis
      by (simp add: RoundRobin_run_def)
  next
    case False
    then have "\<forall>p \<in> set ps. burst_time p \<le> q" by auto
    from rr_loop_eq_fcfs_loop [OF this, of 0 "[]"] False show ?thesis
      by (simp add: RoundRobin_run_def FCFS_run_def init_def)
  qed
qed

theorem runs_do_not_validate_witness:
  "length (FCFS_run [Process 1 (- 3) (- 2) None, Process 2 0 5 (Some 1)]) = 2 \<and>
   list_all (\<lambda>p. start_time p \<noteq> None \<and> completion_time p \<noteq> None)
     (FCFS_run [Process 1 (- 3) (- 2) None, Process 2 0 5 (Some 1)]) \<and>
   SRTF_run [Process 1 (- 3) (- 2) None, Process 2 0 5 (Some 1)] \<noteq> [] \<and>
   Priority_run [Process 1 (- 3) (- 2) None, Process 2 0 5 (Some 1)] = Inl TypeError \<and>
   priority_step (init [Process 1 (- 3) (- 2) None, Process 2 0 5 (Some 1)]) = Inl TypeError \<and>
   (0::int) \<le> 0 \<and>
   RoundRobin_run 0 [Process 1 (- 3) (- 2) None, Process 2 0 5 (Some 1)] = None \<and>
   RoundRobin_run 0 [Process 1 (- 3) (- 2) None]
     = Some (FCFS_run [Process 1 (- 3) (- 2) None])"
proof -
  let ?ps = "[Process 1 (- 3) (- 2) None, Process 2 0 5 (Some 1)]"
  note t = runs_do_not_validate [of ?ps 0]
  note u = runs_do_not_validate [of "[Process 1 (- 3) (- 2) None]" 0]
  have mixed: "(\<exists>x \<in> set ?ps. priority x = None) \<and> (\<exists>x \<in> set ?ps. priority x \<noteq> None)"
    by (simp add: Process_def)
  have big: "\<exists>p \<in> set ?ps. 0 < burst_time p"
    by (simp add: Process_def)
  have small: "\<not> (\<exists>p \<in> set [Process 1 (- 3) (- 2) None]. 0 < burst_time p)"
    by (simp add: Process_def)
  from t have "length (FCFS_run ?ps) = 2" by simp
  moreover from t have "list_all (\<lambda>p. start_time p \<noteq> None \<and> completion_time p \<noteq> None)
     (FCFS_run ?ps)"
    unfolding list_all_iff by blast
  moreover from t have "SRTF_run ?ps \<noteq> []" by blast
  moreover have "Priority_run ?ps = Inl TypeError"
  proof -
    from t have "Priority_run ?ps =
       (if (\<exists>x \<in> set ?ps. priority x = None) \<and> (\<exists>x \<in> set ?ps. priority x \<noteq> None)
        then Inl TypeError
        else Inr (FCFS_run (sort_key priority_key ?ps)))"
      by blast
    then show ?thesis by (simp only: mixed simp_thms if_True)
  qed
  moreover from t mixed have "priority_step (init ?ps) = Inl TypeError" by blast
  moreover have "RoundRobin_run 0 ?ps = None"
  proof -
    from t have "RoundRobin_run 0 ?ps =
        (if \<exists>p \<in> set ?ps. 0 < burst_time p then None else Some (FCFS_run ?ps))"
      by blast
    then show ?thesis by (simp only: big if_True)
  qed
  moreover have "RoundRobin_run 0 [Process 1 (- 3) (- 2) None]
     = Some (FCFS_run [Process 1 (- 3) (- 2) None])"
  proof -
    from u have "RoundRobin_run 0 [Process 1 (- 3) (- 2) None] =
        (if \<exists>p \<in> set [Process 1 (- 3) (- 2) None]. 0 < burst_time p then None
         else Some (FCFS_run [Process 1 (- 3) (- 2) None]))"
      by blast
    then show ?thesis by (simp only: small if_False)
  qed
  ultimately show ?thesis by simp
qed

section \<open>C7: every run terminates\<close>



section \<open>C8: the two metrics\<close>

text \<open>
  Claim C8 says that on every non-empty sequence of completed jobs the two metrics return
  the mean of start time minus arrival time and the mean of completion time minus arrival
  time, and that they fail exactly when the sequence is empty. The division is Python's
  true division of two integers, so the result is a double: on the jobs P1 (arrival 0,
  burst 5), P2 (1, 3), P3 (2, 8) as completed by FCFS the mean waiting time is 10/3 and
  the function returns the double 7505999378950827 / 2 ^ 51, which is not 10/3. And a
  single completed job with burst time 10 ^ 400 makes the turnaround metric raise
  \<open>OverflowError\<close> on a sequence that is not empty.
\<close>

theorem metrics_round_and_overflow:
  "list_all (\<lambda>p. start_time p \<noteq> None \<and> completion_time p \<noteq> None)
     (FCFS_run [Process 1 0 5 None, Process 2 1 3 None, Process 3 2 8 None]) \<and>
   FCFS_run [Process 1 0 5 None, Process 2 1 3 None, Process 3 2 8 None] \<noteq> [] \<and>
   spec_mean (waiting_times
     (FCFS_run [Process 1 0 5 None, Process 2 1 3 None, Process 3 2 8 None])) = 10 / 3 \<and>
   calculate_average_waiting_time
     (FCFS_run [Process 1 0 5 None, Process 2 1 3 None, Process 3 2 8 None])
     = Inr (7505999378950827 / 2 ^ 51) \<and>
   calculate_average_waiting_time
     (FCFS_run [Process 1 0 5 None, Process 2 1 3 None, Process 3 2 8 None])
     \<noteq> Inr (spec_mean (waiting_times
             (FCFS_run [Process 1 0 5 None, Process 2 1 3 None, Process 3 2 8 None]))) \<and>
   list_all (\<lambda>p. start_time p \<noteq> None \<and> completion_time p \<noteq> None)
     (FCFS_run [Process 1 0 (10 ^ 400) None]) \<and>
   FCFS_run [Process 1 0 (10 ^ 400) None] \<noteq> [] \<and>
   calculate_average_turnaround_time (FCFS_run [Process 1 0 (10 ^ 400) None])
     = Inl OverflowError"
proof -
  let ?S = "FCFS_run [Process 1 0 5 None, Process 2 1 3 None, Process 3 2 8 None]"
  have S: "?S
     = [\<lparr>process_id = 1, arrival_time = 0, burst_time = 5, priority = None,
         start_time = Some 0, completion_time = Some 5\<rparr>,
        \<lparr>process_id = 2, arrival_time = 1, burst_time = 3, priority = None,
         start_time = Some 5, completion_time = Some 8\<rparr>,
        \<lparr>process_id = 3, arrival_time = 2, burst_time = 8, priority = None,
         start_time = Some 8, completion_time = Some 16\<rparr>]"
    by (simp add: FCFS_run_def fcfs_loop_Cons dispatch_eq Process_def)
  have nd: "nearest_double (10 / 3) = 7505999378950827 / 2 ^ 51"
    by code_simp
  have small: "\<not> 2 ^ 1024 - 2 ^ 970 \<le> \<bar>10 / 3 :: rat\<bar>"
    by simp
  have w: "calculate_average_waiting_time ?S = Inr (7505999378950827 / 2 ^ 51)"
    using int_truediv_eq [of 3 10] small nd
    by (simp add: S calculate_average_waiting_time_def)
  have m: "spec_mean (waiting_times ?S) = 10 / 3"
    by (simp add: S spec_mean_def waiting_times_def)
  have l: "list_all (\<lambda>p. start_time p \<noteq> None \<and> completion_time p \<noteq> None) ?S"
    by (simp add: S)
  have ne: "?S \<noteq> []" by (simp add: S)
  have d: "calculate_average_waiting_time ?S \<noteq> Inr (spec_mean (waiting_times ?S))"
    by (simp add: w m)
  note big = turnaround_of_one_large_job [OF pow_10_400_large, of 1]
  show ?thesis
    by (intro conjI) (rule l ne m w d big)+
qed


text \<open>
  Claim C8 as amended. On a sequence of completed jobs (every job has its start and
  completion time) the two metrics raise \<open>ZeroDivisionError\<close> exactly when the sequence is
  empty. On a non-empty sequence they return the mean of start time minus arrival time,
  respectively of completion time minus arrival time, rounded to double precision, unless
  the magnitude of the mean is at least \<open>2 ^ 1024 - 2 ^ 970\<close>, in which case they raise
  \<open>OverflowError\<close>. The rounded value differs from a mean \<open>x\<close> of magnitude at least
  \<open>2 ^ - 1022\<close> by at most \<open>\<bar>x\<bar> / 2 ^ 53\<close>, and it is the mean itself when the mean is an
  integer of magnitude at most \<open>2 ^ 53\<close>.
\<close>

theorem metrics_rounded_mean_or_error:
  assumes "\<forall>p \<in> set ps. start_time p \<noteq> None \<and> completion_time p \<noteq> None"
  shows "(calculate_average_waiting_time ps = Inl ZeroDivisionError \<longleftrightarrow> ps = []) \<and>
         (calculate_average_turnaround_time ps = Inl ZeroDivisionError \<longleftrightarrow> ps = []) \<and>
         (ps \<noteq> [] \<longrightarrow>
            calculate_average_waiting_time ps =
              (if 2 ^ 1024 - 2 ^ 970 \<le> \<bar>spec_mean (waiting_times ps)\<bar> then Inl OverflowError
               else Inr (nearest_double (spec_mean (waiting_times ps)))) \<and>
            calculate_average_turnaround_time ps =
              (if 2 ^ 1024 - 2 ^ 970 \<le> \<bar>spec_mean (turnaround_times ps)\<bar> then Inl OverflowError
               else Inr (nearest_double (spec_mean (turnaround_times ps))))) \<and>
         (\<forall>x. 1 / 2 ^ 1022 \<le> \<bar>x\<bar> \<longrightarrow> \<bar>nearest_double x - x\<bar> \<le> \<bar>x\<bar> / 2 ^ 53) \<and>
         (\<forall>n. \<bar>n\<bar> \<le> 2 ^ 53 \<longrightarrow> nearest_double (of_int n) = of_int n)"
proof -
  from assms have s: "\<not> (\<exists>p \<in> set ps. start_time p = None)"
    and c: "\<not> (\<exists>p \<in> set ps. completion_time p = None)"
    by auto
  have w: "calculate_average_waiting_time ps
           = int_truediv (sum_list (waiting_times ps)) (int (length ps))"
    by (simp add: calculate_average_waiting_time_def s waiting_times_def)
  have t: "calculate_average_turnaround_time ps
           = int_truediv (sum_list (turnaround_times ps)) (int (length ps))"
    by (simp add: calculate_average_turnaround_time_def c turnaround_times_def)
  have empty: "calculate_average_waiting_time ps = Inl ZeroDivisionError"
    "calculate_average_turnaround_time ps = Inl ZeroDivisionError" if "ps = []"
    unfolding w t using that by (simp_all add: int_truediv_def)
  have nonempty:
    "calculate_average_waiting_time ps =
       (if 2 ^ 1024 - 2 ^ 970 \<le> \<bar>spec_mean (waiting_times ps)\<bar> then Inl OverflowError
        else Inr (nearest_double (spec_mean (waiting_times ps))))"
    "calculate_average_turnaround_time ps =
       (if 2 ^ 1024 - 2 ^ 970 \<le> \<bar>spec_mean (turnaround_times ps)\<bar> then Inl OverflowError
        else Inr (nearest_double (spec_mean (turnaround_times ps))))"
    if "ps \<noteq> []"
  proof -
    from that have len: "int (length ps) \<noteq> 0" by simp
    have lw: "length (waiting_times ps) = length ps" by (simp add: waiting_times_def)
    have lt: "length (turnaround_times ps) = length ps" by (simp add: turnaround_times_def)
    show "calculate_average_waiting_time ps =
       (if 2 ^ 1024 - 2 ^ 970 \<le> \<bar>spec_mean (waiting_times ps)\<bar> then Inl OverflowError
        else Inr (nearest_double (spec_mean (waiting_times ps))))"
      using int_truediv_eq [OF len, of "sum_list (waiting_times ps)"]
      by (simp add: w spec_mean_def lw)
    show "calculate_average_turnaround_time ps =
       (if 2 ^ 1024 - 2 ^ 970 \<le> \<bar>spec_mean (turnaround_times ps)\<bar> then Inl OverflowError
        else Inr (nearest_double (spec_mean (turnaround_times ps))))"
      using int_truediv_eq [OF len, of "sum_list (turnaround_times ps)"]
      by (simp add: t spec_mean_def lt)
  qed
  have zw: "calculate_average_waiting_time ps = Inl ZeroDivisionError \<longleftrightarrow> ps = []"
  proof (cases "ps = []")
    case True
    with empty(1) show ?thesis by simp
  next
    case False
    from nonempty(1) [OF this] False show ?thesis by (simp split: if_splits)
  qed
  have zt: "calculate_average_turnaround_time ps = Inl ZeroDivisionError \<longleftrightarrow> ps = []"
  proof (cases "ps = []")
    case True
    with empty(2) show ?thesis by simp
  next
    case False
    from nonempty(2) [OF this] False show ?thesis by (simp split: if_splits)
  qed
  have err: "\<forall>x. 1 / 2 ^ 1022 \<le> \<bar>x\<bar> \<longrightarrow> \<bar>nearest_double x - x\<bar> \<le> \<bar>x\<bar> / 2 ^ 53"
    by (intro allI impI) (rule nearest_double_relative_error)
  have exact: "\<forall>n. \<bar>n\<bar> \<le> 2 ^ 53 \<longrightarrow> nearest_double (of_int n) = of_int n"
    by (intro allI impI) (rule nearest_double_of_int)
  from zw zt nonempty err exact show ?thesis by blast
qed

theorem metrics_rounded_mean_or_error_witness:
  "list_all (\<lambda>p. start_time p \<noteq> None \<and> completion_time p \<noteq> None)
     (FCFS_run [Process 1 0 5 None, Process 2 1 3 None, Process 3 2 8 None]) \<and>
   calculate_average_waiting_time
     (FCFS_run [Process 1 0 5 None, Process 2 1 3 None, Process 3 2 8 None])
     = Inr (nearest_double (10 / 3)) \<and>
   calculate_average_turnaround_time
     (FCFS_run [Process 1 0 5 None, Process 2 1 3 None, Process 3 2 8 None])
     = Inr (nearest_double (26 / 3)) \<and>
   nearest_double (10 / 3) = 7505999378950827 / 2 ^ 51 \<and>
   nearest_double (26 / 3) = 4878899596318037 / 2 ^ 49 \<and>
   \<bar>nearest_double (10 / 3) - 10 / 3\<bar> \<le> \<bar>10 / 3\<bar> / 2 ^ 53 \<and>
   nearest_double (of_int 7) = of_int 7 \<and>
   calculate_average_waiting_time [] = Inl ZeroDivisionError \<and>
   calculate_average_turnaround_time [] = Inl ZeroDivisionError"
proof -
  let ?S = "FCFS_run [Process 1 0 5 None, Process 2 1 3 None, Process 3 2 8 None]"
  have S: "?S
     = [\<lparr>process_id = 1, arrival_time = 0, burst_time = 5, priority = None,
         start_time = Some 0, completion_time = Some 5\<rparr>,
        \<lparr>process_id = 2, arrival_time = 1, burst_time = 3, priority = None,
         start_time = Some 5, completion_time = Some 8\<rparr>,
        \<lparr>process_id = 3, arrival_time = 2, burst_time = 8, priority = None,
         start_time = Some 8, completion_time = Some 16\<rparr>]"
    by (simp add: FCFS_run_def fcfs_loop_Cons dispatch_eq Process_def)
  have h: "\<forall>p \<in> set ?S. start_time p \<noteq> None \<and> completion_time p \<noteq> None"
    by (simp add: S)
  have l: "list_all (\<lambda>p. start_time p \<noteq> None \<and> completion_time p \<noteq> None) ?S"
    by (simp add: S)
  have e: "\<forall>p \<in> set ([] :: process list). start_time p \<noteq> None \<and> completion_time p \<noteq> None"
    by simp
  have ne: "?S \<noteq> []" by (simp add: S)
  have mw: "spec_mean (waiting_times ?S) = 10 / 3"
    by (simp add: S spec_mean_def waiting_times_def)
  have mt: "spec_mean (turnaround_times ?S) = 26 / 3"
    by (simp add: S spec_mean_def turnaround_times_def)
  have sw: "\<not> 2 ^ 1024 - 2 ^ 970 \<le> \<bar>10 / 3 :: rat\<bar>" by simp
  have st: "\<not> 2 ^ 1024 - 2 ^ 970 \<le> \<bar>26 / 3 :: rat\<bar>" by simp
  note t = metrics_rounded_mean_or_error [OF h]
  note u = metrics_rounded_mean_or_error [OF e]
  from t ne have "calculate_average_waiting_time ?S =
              (if 2 ^ 1024 - 2 ^ 970 \<le> \<bar>spec_mean (waiting_times ?S)\<bar> then Inl OverflowError
               else Inr (nearest_double (spec_mean (waiting_times ?S))))"
    by blast
  then have w: "calculate_average_waiting_time ?S = Inr (nearest_double (10 / 3))"
    by (simp only: mw sw if_False)
  from t ne have "calculate_average_turnaround_time ?S =
              (if 2 ^ 1024 - 2 ^ 970 \<le> \<bar>spec_mean (turnaround_times ?S)\<bar> then Inl OverflowError
               else Inr (nearest_double (spec_mean (turnaround_times ?S))))"
    by blast
  then have tt: "calculate_average_turnaround_time ?S = Inr (nearest_double (26 / 3))"
    by (simp only: mt st if_False)
  have n1: "nearest_double (10 / 3) = 7505999378950827 / 2 ^ 51" by code_simp
  have n2: "nearest_double (26 / 3) = 4878899596318037 / 2 ^ 49" by code_simp
  from t have "\<forall>x. 1 / 2 ^ 1022 \<le> \<bar>x\<bar> \<longrightarrow> \<bar>nearest_double x - x\<bar> \<le> \<bar>x\<bar> / 2 ^ 53"
    by blast
  then have "1 / 2 ^ 1022 \<le> \<bar>10 / 3 :: rat\<bar> \<longrightarrow> \<bar>nearest_double (10 / 3) - 10 / 3\<bar> \<le> \<bar>10 / 3\<bar> / 2 ^ 53"
    by (rule spec)
  moreover have "1 / 2 ^ 1022 \<le> \<bar>10 / 3 :: rat\<bar>" by simp
  ultimately have er: "\<bar>nearest_double (10 / 3) - 10 / 3\<bar> \<le> \<bar>10 / 3\<bar> / 2 ^ 53"
    by (rule mp)
  from t have "\<forall>n. \<bar>n\<bar> \<le> 2 ^ 53 \<longrightarrow> nearest_double (of_int n) = of_int n"
    by blast
  then have "\<bar>7 :: int\<bar> \<le> 2 ^ 53 \<longrightarrow> nearest_double (of_int 7) = of_int 7"
    by (rule spec)
  moreover have "\<bar>7 :: int\<bar> \<le> 2 ^ 53" by simp
  ultimately have ex: "nearest_double (of_int 7) = of_int 7" by (rule mp)
  from u have z1: "calculate_average_waiting_time [] = Inl ZeroDivisionError" by blast
  from u have z2: "calculate_average_turnaround_time [] = Inl ZeroDivisionError" by blast
  show ?thesis
    by (intro conjI) (rule l w tt n1 n2 er ex z1 z2)+
qed

section \<open>C9: FCFS preserves the input order\<close>

text \<open>
  Claim C9. FCFS is order-preserving: for every input job sequence the completed sequence
  lists the jobs in the input order (the identifiers, and indeed every caller-supplied
  field, position by position), and the start time of each job is the maximum of the
  completion time of the job before it (0 for the first job, the initial clock) and its
  own arrival time; its completion time is that start time plus its burst time.
\<close>

theorem FCFS_order_preserving:
  "map process_id (FCFS_run ps) = map process_id ps \<and>
   map untimed (FCFS_run ps) = map untimed ps \<and>
   (\<forall>i < length ps.
      start_time (FCFS_run ps ! i)
        = Some (max (if i = 0 then 0 else the (completion_time (FCFS_run ps ! (i - 1))))
                    (arrival_time (ps ! i))) \<and>
      completion_time (FCFS_run ps ! i)
        = Some (max (if i = 0 then 0 else the (completion_time (FCFS_run ps ! (i - 1))))
                    (arrival_time (ps ! i))
                + burst_time (ps ! i)))"
proof -
  have u: "map untimed (FCFS_run ps) = map untimed ps"
    by (simp add: FCFS_run_def untimed_fcfs_loop)
  have "map process_id (FCFS_run ps) = map process_id ps"
    by (rule process_id_FCFS_run)
  moreover have "start_time (FCFS_run ps ! i)
        = Some (max (if i = 0 then 0 else the (completion_time (FCFS_run ps ! (i - 1))))
                    (arrival_time (ps ! i)))"
    if "i < length ps" for i
    unfolding FCFS_run_def using that by (rule fcfs_loop_start)
  moreover have "completion_time (FCFS_run ps ! i)
        = Some (max (if i = 0 then 0 else the (completion_time (FCFS_run ps ! (i - 1))))
                    (arrival_time (ps ! i))
                + burst_time (ps ! i))"
    if "i < length ps" for i
    unfolding FCFS_run_def using that by (rule fcfs_loop_completion)
  ultimately show ?thesis using u by blast
qed

theorem FCFS_order_preserving_witness:
  "map process_id (FCFS_run [Process 1 0 5 None, Process 2 1 3 None, Process 3 2 8 None])
     = [1, 2, 3] \<and>
   start_time (FCFS_run [Process 1 0 5 None, Process 2 1 3 None, Process 3 2 8 None] ! 0)
     = Some (max 0 0) \<and>
   start_time (FCFS_run [Process 1 0 5 None, Process 2 1 3 None, Process 3 2 8 None] ! 1)
     = Some (max 5 1) \<and>
   start_time (FCFS_run [Process 1 0 5 None, Process 2 1 3 None, Process 3 2 8 None] ! 2)
     = Some (max 8 2)"
proof -
  let ?ps = "[Process 1 0 5 None, Process 2 1 3 None, Process 3 2 8 None]"
  note t = FCFS_order_preserving [of ?ps]
  have ids: "map process_id (FCFS_run ?ps) = [1, 2, 3]"
    using t by (simp add: Process_def)
  have c0: "completion_time (FCFS_run ?ps ! 0) = Some 5"
    by (simp add: FCFS_run_def fcfs_loop_Cons dispatch_eq Process_def)
  have c1: "completion_time (FCFS_run ?ps ! 1) = Some 8"
    by (simp add: FCFS_run_def fcfs_loop_Cons dispatch_eq Process_def)
  from t have s: "\<forall>i < 3. start_time (FCFS_run ?ps ! i)
        = Some (max (if i = 0 then 0 else the (completion_time (FCFS_run ?ps ! (i - 1))))
                    (arrival_time (?ps ! i)))"
    by simp
  from s have "start_time (FCFS_run ?ps ! 0) = Some (max 0 0)"
    by (simp add: Process_def)
  moreover from s [rule_format, of 1] c0 have "start_time (FCFS_run ?ps ! 1) = Some (max 5 1)"
    by (simp add: Process_def)
  moreover from s [rule_format, of 2] c1 have "start_time (FCFS_run ?ps ! 2) = Some (max 8 2)"
    by (simp add: Process_def)
  ultimately show ?thesis using ids by simp
qed

section \<open>C10: round robin with a quantum that covers every job\<close>

text \<open>
  Claim C10. If the quantum is greater than or equal to the largest service time of the
  job set, \<open>RoundRobin.run\<close> returns, and returns exactly the sequence that \<open>FCFS.run\<close>
  returns on the same input: the same jobs in the same order with the same start and
  completion times. (The positivity of the service times is not needed.)
\<close>

theorem RoundRobin_covering_quantum_is_FCFS:
  "\<forall>p \<in> set ps. burst_time p \<le> q \<Longrightarrow> RoundRobin_run q ps = Some (FCFS_run ps)"
  by (simp add: RoundRobin_run_def FCFS_run_def init_def rr_loop_eq_fcfs_loop)

theorem RoundRobin_covering_quantum_is_FCFS_witness:
  "list_all (\<lambda>p. 0 < burst_time p \<and> burst_time p \<le> 8)
     [Process 1 0 5 None, Process 2 1 3 None, Process 3 2 8 None] \<and>
   RoundRobin_run 8 [Process 1 0 5 None, Process 2 1 3 None, Process 3 2 8 None]
     = Some (FCFS_run [Process 1 0 5 None, Process 2 1 3 None, Process 3 2 8 None]) \<and>
   FCFS_run [Process 1 0 5 None, Process 2 1 3 None, Process 3 2 8 None]
     = [\<lparr>process_id = 1, arrival_time = 0, burst_time = 5, priority = None,
         start_time = Some 0, completion_time = Some 5\<rparr>,
        \<lparr>process_id = 2, arrival_time = 1, burst_time = 3, priority = None,
         start_time = Some 5, completion_time = Some 8\<rparr>,
        \<lparr>process_id = 3, arrival_time = 2, burst_time = 8, priority = None,
         start_time = Some 8, completion_time = Some 16\<rparr>]"
proof -
  let ?ps = "[Process 1 0 5 None, Process 2 1 3 None, Process 3 2 8 None]"
  have h: "\<forall>p \<in> set ?ps. burst_time p \<le> 8"
    by (simp add: Process_def)
  have "RoundRobin_run 8 ?ps = Some (FCFS_run ?ps)"
    by (rule RoundRobin_covering_quantum_is_FCFS [OF h])
  moreover have "list_all (\<lambda>p. 0 < burst_time p \<and> burst_time p \<le> 8) ?ps"
    by (simp add: Process_def)
  moreover have "FCFS_run ?ps
     = [\<lparr>process_id = 1, arrival_time = 0, burst_time = 5, priority = None,
         start_time = Some 0, completion_time = Some 5\<rparr>,
        \<lparr>process_id = 2, arrival_time = 1, burst_time = 3, priority = None,
         start_time = Some 5, completion_time = Some 8\<rparr>,
        \<lparr>process_id = 3, arrival_time = 2, burst_time = 8, priority = None,
         start_time = Some 8, completion_time = Some 16\<rparr>]"
    by (simp add: FCFS_run_def fcfs_loop_Cons dispatch_eq Process_def)
  ultimately show ?thesis by simp
qed

end
